theory Spec2Isabelle
  imports Complex_Main "HOL-Library.Signed_Division"
begin

section \<open>The CommBlock of Cello: data\<close>

text \<open>
  The development follows \<^verbatim>\<open>src/Cello/comm_CommBlock.cpp\<close> (the Charm++ build,
  \<^verbatim>\<open>CONFIG_USE_CHARM\<close>). A C++ \<^verbatim>\<open>int\<close> is an \<^typ>\<open>int\<close>: block counts, block
  indices and cell counts are far below \<open>2 ^ 30\<close>, where none of the sums below leaves the
  range of a 32-bit integer (lemma \<open>refresh_index_arithmetic_in_range\<close>). A \<^verbatim>\<open>double\<close>
  is the \<^typ>\<open>real\<close> it stands for: comparisons and minima of doubles are exact, and the
  one subtraction and the one addition of times round their result (\<open>double_round\<close>).
\<close>

datatype axis_type = axis_x | axis_y | axis_z

datatype face_type = face_lower | face_upper

type_synonym int3 = "int \<times> int \<times> int"

fun along :: "axis_type \<Rightarrow> int3 \<Rightarrow> int" where
  "along axis_x (x, y, z) = x"
| "along axis_y (x, y, z) = y"
| "along axis_z (x, y, z) = z"

text \<open>
  Modelled from the spec: the class \<^verbatim>\<open>Sync\<close> of \<^verbatim>\<open>sync_refresh_\<close> is not in the
  sources. Section 4.4: the block increments an arrival counter for each message, and passes
  on when the counter equals the quorum; the quorum is the number of messages of one cycle
  (section 4.3), so the counter starts the next cycle at zero.
\<close>

record Sync =
  sync_stop :: int
  sync_curr :: int

definition Sync_done :: "Sync \<Rightarrow> bool \<times> Sync" where
  "Sync_done s =
     (let c = sync_curr s + 1
      in if c = sync_stop s then (True, s\<lparr>sync_curr := 0\<rparr>)
         else (False, s\<lparr>sync_curr := c\<rparr>))"

text \<open>
  What a block calls outside itself, in program order: its collaborators (Boundary, the
  reduction, FieldFace, the Methods, the Simulation) and the entry methods of other blocks
  (\<open>Send index n array tag\<close> is \<^verbatim>\<open>thisProxy[index].x_refresh(n,array,tag)\<close>).
  \<open>Set_cycle\<close> marks the call \<^verbatim>\<open>set_cycle(cycle_ + 1)\<close> that raises the cycle counter.
  A \<^verbatim>\<open>char *\<close> is a \<^typ>\<open>'b option\<close>, \<^const>\<open>None\<close> the null pointer.
\<close>

datatype 'b event =
    Enforce face_type axis_type
  | Contribute "real \<times> real"
  | Send int3 int "'b option" int3
  | Store int "'b option" int3
  | Compute_block nat
  | Set_cycle int
  | Update_state int real real bool
  | Simulation_p_output

text \<open>
  The members of the class. A name of Isabelle cannot end with an underscore, so a member
  \<^verbatim>\<open>name_\<close> is the field \<open>cb_name\<close>, and a member function loses its last underscore:
  \<^verbatim>\<open>index_\<close> and \<^verbatim>\<open>size_\<close> (the block's index in the array of blocks and the array's
  extents), \<^verbatim>\<open>cycle_\<close>, \<^verbatim>\<open>time_\<close>, \<^verbatim>\<open>dt_\<close>, \<^verbatim>\<open>block_\<close> and
  \<^verbatim>\<open>sync_refresh_\<close>. Of the Block, \<open>field_size\<close> is what
  \<^verbatim>\<open>block_->field_block()->size(&nx,&ny,&nz)\<close> returns and \<open>cb_block\<close> is the field
  data, ghost zones included. \<open>cb_out\<close> is the record of the calls made so far.
\<close>

record ('f, 'b) CommBlock =
  cb_index :: int3
  cb_size :: int3
  cb_cycle :: int
  cb_time :: real
  cb_dt :: real
  field_size :: int3
  cb_block :: 'f
  cb_sync_refresh :: Sync
  cb_out :: "'b event list"

text \<open>
  The objects a block reaches through \<^verbatim>\<open>proxy_simulation.ckLocalBranch()\<close>. Their
  classes are collaborators outside this file; each is the function the block calls.
  A collaborator that is handed \<^verbatim>\<open>this\<close> reads and writes the field data only.
\<close>

record ('f, 'b) Simulation =
  boundary_is_periodic :: bool
  boundary_enforce :: "face_type \<Rightarrow> axis_type \<Rightarrow> 'f \<Rightarrow> 'f"
  field_refresh_face :: "int \<Rightarrow> bool"
  face_load :: "int3 \<Rightarrow> 'f \<Rightarrow> int \<times> 'b option"
  face_store :: "int \<Rightarrow> 'b option \<Rightarrow> int3 \<Rightarrow> 'f \<Rightarrow> 'f"
  timestep_evaluate :: "'f \<Rightarrow> real"
  output_schedules :: "(real \<Rightarrow> real \<Rightarrow> real) list"
  stopping_stop_time :: real
  stopping_complete :: "int \<Rightarrow> real \<Rightarrow> bool"
  problem_methods :: "('f \<Rightarrow> 'f) list"

section \<open>Topology: boundary faces and the count of incoming faces\<close>

definition is_on_boundary :: "('f, 'b) CommBlock \<Rightarrow> axis_type \<Rightarrow> face_type \<Rightarrow> bool" where
  "is_on_boundary b a f =
     (case f of
        face_lower \<Rightarrow> along a (cb_index b) = 0
      | face_upper \<Rightarrow> along a (cb_index b) = along a (cb_size b) - 1)"

definition determine_boundary ::
  "('f, 'b) CommBlock \<Rightarrow>
     (axis_type \<Rightarrow> face_type \<Rightarrow> bool) \<times> bool \<times> bool \<times> bool \<times> bool \<times> bool \<times> bool" where
  "determine_boundary b =
     (case field_size b of (nx, ny, nz) \<Rightarrow>
        (is_on_boundary b, nx > 1, nx > 1, ny > 1, ny > 1, nz > 1, nz > 1))"

definition incr :: "bool \<Rightarrow> int \<Rightarrow> int" where
  "incr c count = (if c then count + 1 else count)"

definition count_refresh :: "('f, 'b) Simulation \<Rightarrow> ('f, 'b) CommBlock \<Rightarrow> int" where
  "count_refresh sim b =
     (case field_size b of (nx, ny, nz) \<Rightarrow>
      let fxm = nx > 1; fxp = nx > 1;
          fym = ny > 1; fyp = ny > 1;
          fzm = nz > 1; fzp = nz > 1;
          periodic = boundary_is_periodic sim;
          is_boundary = is_on_boundary b;
          fxm = (fxm \<and> (periodic \<or> \<not> is_boundary axis_x face_lower));
          fxp = (fxp \<and> (periodic \<or> \<not> is_boundary axis_x face_upper));
          fym = (fym \<and> (periodic \<or> \<not> is_boundary axis_y face_lower));
          fyp = (fyp \<and> (periodic \<or> \<not> is_boundary axis_y face_upper));
          fzm = (fzm \<and> (periodic \<or> \<not> is_boundary axis_z face_lower));
          fzp = (fzp \<and> (periodic \<or> \<not> is_boundary axis_z face_upper));
          count = 1;
          count =
            (if field_refresh_face sim 2 then
               incr fzp (incr fzm (incr fyp (incr fym (incr fxp (incr fxm count)))))
             else count);
          count =
            (if field_refresh_face sim 1 then
               incr (fzp \<and> fxp) (incr (fzp \<and> fxm) (incr (fzm \<and> fxp) (incr (fzm \<and> fxm)
              (incr (fyp \<and> fzp) (incr (fyp \<and> fzm) (incr (fym \<and> fzp) (incr (fym \<and> fzm)
              (incr (fxp \<and> fyp) (incr (fxp \<and> fym) (incr (fxm \<and> fyp) (incr (fxm \<and> fym)
                 count)))))))))))
             else count);
          count =
            (if field_refresh_face sim 0 then
               incr (fxp \<and> fyp \<and> fzp) (incr (fxp \<and> fyp \<and> fzm)
              (incr (fxp \<and> fym \<and> fzp) (incr (fxp \<and> fym \<and> fzm)
              (incr (fxm \<and> fyp \<and> fzp) (incr (fxm \<and> fyp \<and> fzm)
              (incr (fxm \<and> fym \<and> fzp) (incr (fxm \<and> fym \<and> fzm) count)))))))
             else count)
      in count)"

section \<open>The constructor\<close>

text \<open>
  \<^verbatim>\<open>CommBlock::CommBlock\<close> with \<^verbatim>\<open>initialize_\<close>: cycle, time and timestep start at
  zero, and the quorum of \<^verbatim>\<open>sync_refresh_\<close> is what \<^verbatim>\<open>count_refresh_()\<close> returns.
\<close>

definition CommBlock_new ::
  "('f, 'b) Simulation \<Rightarrow> int3 \<Rightarrow> int3 \<Rightarrow> int3 \<Rightarrow> 'f \<Rightarrow> ('f, 'b) CommBlock" where
  "CommBlock_new sim ib nb n data =
     (let b = \<lparr>cb_index = ib, cb_size = nb, cb_cycle = 0, cb_time = 0, cb_dt = 0,
                field_size = n, cb_block = data,
                cb_sync_refresh = \<lparr>sync_stop = 0, sync_curr = 0\<rparr>, cb_out = []\<rparr>
      in b\<lparr>cb_sync_refresh := (cb_sync_refresh b)\<lparr>sync_stop := count_refresh sim b\<rparr>\<rparr>)"

section \<open>Double precision\<close>

text \<open>
  The arithmetic of \<^verbatim>\<open>double\<close> (IEEE 754 binary64 with the default rounding): a sum or
  a difference of two doubles is the exact result rounded to the nearest number with a
  significand of 53 bits, and to the one with the even significand when two are equally near.
  \<open>double_exponent\<close> looks for the binary exponent of a positive number, starting from
  exponent 0 and staying within the exponents \<open>-1022\<close> to \<open>1023\<close> of a double; below
  \<open>2 ^ -1022\<close> the doubles are the subnormal ones, spaced as at exponent \<open>-1022\<close>.
  Infinities and NaN are not modelled: the results are those of the program for numbers below
  \<open>2 ^ 1024\<close>.
\<close>

definition pow2 :: "int \<Rightarrow> real" where
  "pow2 e = (if 0 \<le> e then 2 ^ nat e else 1 / 2 ^ nat (- e))"

fun double_exponent :: "nat \<Rightarrow> int \<Rightarrow> real \<Rightarrow> int" where
  "double_exponent 0 e x = e"
| "double_exponent (Suc fuel) e x =
     (if x < pow2 e \<and> - 1022 < e then double_exponent fuel (e - 1) x
      else if pow2 (e + 1) \<le> x \<and> e < 1023 then double_exponent fuel (e + 1) x
      else e)"

definition round_even :: "real \<Rightarrow> int" where
  "round_even m =
     (let f = \<lfloor>m\<rfloor>
      in if m - of_int f < 1 / 2 then f
         else if 1 / 2 < m - of_int f then f + 1
         else if even f then f else f + 1)"

definition double_round :: "real \<Rightarrow> real" where
  "double_round x =
     (if x = 0 then 0
      else let e = double_exponent 1023 0 \<bar>x\<bar>;
               ulp = pow2 (e - 52)
           in of_int (round_even (x / ulp)) * ulp)"

section \<open>prepare: boundary conditions, local timestep, contribution to the reduction\<close>

definition enforce ::
  "('f, 'b) Simulation \<Rightarrow> face_type \<Rightarrow> axis_type \<Rightarrow> ('f, 'b) CommBlock \<Rightarrow> ('f, 'b) CommBlock" where
  "enforce sim f a b =
     b\<lparr>cb_block := boundary_enforce sim f a (cb_block b), cb_out := cb_out b @ [Enforce f a]\<rparr>"

definition update_boundary ::
  "('f, 'b) Simulation \<Rightarrow> ('f, 'b) CommBlock \<Rightarrow> ('f, 'b) CommBlock" where
  "update_boundary sim b =
     (case determine_boundary b of (is_boundary, fxm, fxp, fym, fyp, fzm, fzp) \<Rightarrow>
      let b = (if fxm \<and> is_boundary axis_x face_lower then enforce sim face_lower axis_x b else b);
          b = (if fxp \<and> is_boundary axis_x face_upper then enforce sim face_upper axis_x b else b);
          b = (if fym \<and> is_boundary axis_y face_lower then enforce sim face_lower axis_y b else b);
          b = (if fyp \<and> is_boundary axis_y face_upper then enforce sim face_upper axis_y b else b);
          b = (if fzm \<and> is_boundary axis_z face_lower then enforce sim face_lower axis_z b else b);
          b = (if fzp \<and> is_boundary axis_z face_upper then enforce sim face_upper axis_z b else b)
      in b)"

text \<open>
  Modelled from the spec: the macro \<^verbatim>\<open>MIN\<close> comes from a header that is not in the
  sources. Section 4.4 has the candidate clamped so that time does not overshoot the stop
  time: the smaller of the two. \<open>MIN\<close> is syntax of HOL already, so the macro is \<open>MIN2\<close>.
\<close>

definition MIN2 :: "real \<Rightarrow> real \<Rightarrow> real" where
  "MIN2 a b = (if a < b then a else b)"

text \<open>
  The three values \<^verbatim>\<open>prepare\<close> computes after the boundary update: \<^verbatim>\<open>dt_block\<close>,
  \<^verbatim>\<open>stop_block\<close> and the array \<^verbatim>\<open>min_reduce\<close> it contributes. The loop over
  \<^verbatim>\<open>problem->output(index_output++)\<close> ends at the first null pointer, after the last
  output of the list.
\<close>

definition dt_block :: "('f, 'b) Simulation \<Rightarrow> ('f, 'b) CommBlock \<Rightarrow> real" where
  "dt_block sim b =
     (let dt = timestep_evaluate sim (cb_block b);
          dt = fold (\<lambda>update_timestep dt. update_timestep (cb_time b) dt)
                 (output_schedules sim) dt;
          time_stop = stopping_stop_time sim;
          time_curr = cb_time b
      in MIN2 dt (double_round (time_stop - time_curr)))"

definition stop_block :: "('f, 'b) Simulation \<Rightarrow> ('f, 'b) CommBlock \<Rightarrow> bool" where
  "stop_block sim b = stopping_complete sim (cb_cycle b) (cb_time b)"

definition min_reduce :: "('f, 'b) Simulation \<Rightarrow> ('f, 'b) CommBlock \<Rightarrow> real \<times> real" where
  "min_reduce sim b = (dt_block sim b, if stop_block sim b then 1 else 0)"

definition prepare :: "('f, 'b) Simulation \<Rightarrow> ('f, 'b) CommBlock \<Rightarrow> ('f, 'b) CommBlock" where
  "prepare sim b =
     (let b = update_boundary sim b
      in b\<lparr>cb_out := cb_out b @ [Contribute (min_reduce sim b)]\<rparr>)"

section \<open>The reduction and its callback\<close>

text \<open>
  \<^verbatim>\<open>CkReduction::min_double\<close> of Charm++ takes the minimum of the contributed arrays
  slot by slot; with no contribution there is no result. The callback
  \<^verbatim>\<open>p_output\<close> goes to every element of the array of blocks.
\<close>

fun min_double :: "(real \<times> real) list \<Rightarrow> (real \<times> real) option" where
  "min_double [] = None"
| "min_double (c # cs) =
     Some (fold (\<lambda>c r. (min (fst r) (fst c), min (snd r) (snd c))) cs c)"

definition stop_forest :: "real \<times> real \<Rightarrow> bool" where
  "stop_forest r = (if snd r = 1 then True else False)"

definition p_output :: "real \<times> real \<Rightarrow> ('f, 'b) CommBlock \<Rightarrow> ('f, 'b) CommBlock" where
  "p_output r b =
     (let dt_forest = fst r;
          b = b\<lparr>cb_dt := dt_forest\<rparr>
      in b\<lparr>cb_out := cb_out b @
            [Update_state (cb_cycle b) (cb_time b) dt_forest (stop_forest r),
             Simulation_p_output]\<rparr>)"

text \<open>
  One reduction over the blocks of the array: every block runs \<^verbatim>\<open>prepare\<close>, the
  contributed arrays are reduced, and the result is handed to \<^verbatim>\<open>p_output\<close> of every block.
\<close>

definition cycle_reduction ::
  "('f, 'b) Simulation \<Rightarrow> ('f, 'b) CommBlock list \<Rightarrow> ('f, 'b) CommBlock list option" where
  "cycle_reduction sim bs =
     (let ps = map (update_boundary sim) bs
      in case min_double (map (min_reduce sim) ps) of
           None \<Rightarrow> None
         | Some r \<Rightarrow> Some (map (\<lambda>b. p_output r (prepare sim b)) bs))"

section \<open>refresh, x\_refresh and compute\<close>

text \<open>
  \<^verbatim>\<open>x_refresh\<close> is the entry method that receives a ghost message; \<^verbatim>\<open>refresh\<close>
  invokes it on other blocks through the proxy, which is recorded as a \<open>Send\<close>, and calls
  it on the block itself directly. In \<^verbatim>\<open>refresh\<close> the index \<^verbatim>\<open>thisIndex\<close> of the
  array element is the \<^verbatim>\<open>index_\<close> of the block, the three arrays of three are functions
  on \<open>0, 1, 2\<close>, the operator \<^verbatim>\<open>%\<close> of C++ is \<open>smod\<close>, and the three nested loops go
  through the list of their triples in order. In \<^verbatim>\<open>compute\<close> the loop over
  \<^verbatim>\<open>problem()->method(index_method++)\<close> goes through the list of the methods.
\<close>

definition x_refresh ::
  "('f, 'b) Simulation \<Rightarrow> int \<Rightarrow> 'b option \<Rightarrow> int3 \<Rightarrow> ('f, 'b) CommBlock \<Rightarrow> ('f, 'b) CommBlock" where
  "x_refresh sim n buffer f b =
     (let b = (if n \<noteq> 0
               then b\<lparr>cb_block := face_store sim n buffer f (cb_block b),
                      cb_out := cb_out b @ [Store n buffer f]\<rparr>
               else b);
          (done, s) = Sync_done (cb_sync_refresh b);
          b = b\<lparr>cb_sync_refresh := s\<rparr>
      in if done then prepare sim b else b)"

definition array3 :: "'a \<Rightarrow> 'a \<Rightarrow> 'a \<Rightarrow> int \<Rightarrow> 'a" where
  "array3 a0 a1 a2 i = (if i = 0 then a0 else if i = 1 then a1 else a2)"

definition refresh :: "('f, 'b) Simulation \<Rightarrow> ('f, 'b) CommBlock \<Rightarrow> ('f, 'b) CommBlock" where
  "refresh sim b =
     (case cb_index b of (ibx, iby, ibz) \<Rightarrow>
      case cb_size b of (nbx, nby, nbz) \<Rightarrow>
      case determine_boundary b of (is_boundary, fxm, fxp, fym, fyp, fzm, fzp) \<Rightarrow>
      let periodic = boundary_is_periodic sim;
          fx3 = array3 (fxm \<and> (periodic \<or> \<not> is_boundary axis_x face_lower)) True
                       (fxp \<and> (periodic \<or> \<not> is_boundary axis_x face_upper));
          fy3 = array3 (fym \<and> (periodic \<or> \<not> is_boundary axis_y face_lower)) True
                       (fyp \<and> (periodic \<or> \<not> is_boundary axis_y face_upper));
          fz3 = array3 (fzm \<and> (periodic \<or> \<not> is_boundary axis_z face_lower)) True
                       (fzp \<and> (periodic \<or> \<not> is_boundary axis_z face_upper));
          ix3 = array3 ((ibx - 1 + nbx) smod nbx) ibx ((ibx + 1) smod nbx);
          iy3 = array3 ((iby - 1 + nby) smod nby) iby ((iby + 1) smod nby);
          iz3 = array3 ((ibz - 1 + nbz) smod nbz) ibz ((ibz + 1) smod nbz);
          fxl = 1;
          fyl = (if nby = 1 \<and> \<not> periodic then 0 else 1);
          fzl = (if nbz = 1 \<and> \<not> periodic then 0 else 1);
          b = fold (\<lambda>(fx, fy, fz) b.
                 let sum = \<bar>fx\<bar> + \<bar>fy\<bar> + \<bar>fz\<bar>
                 in if (fx3 (fx + 1) \<and> fy3 (fy + 1) \<and> fz3 (fz + 1)) \<and>
                       ((sum = 1 \<and> field_refresh_face sim 2) \<or>
                        (sum = 2 \<and> field_refresh_face sim 1) \<or>
                        (sum = 3 \<and> field_refresh_face sim 0))
                    then (case face_load sim (fx, fy, fz) (cb_block b) of (n, array) \<Rightarrow>
                            b\<lparr>cb_out := cb_out b @
                                 [Send (ix3 (fx + 1), iy3 (fy + 1), iz3 (fz + 1)) n array
                                    (- fx, - fy, - fz)]\<rparr>)
                    else b)
                (concat (map (\<lambda>fx. concat (map (\<lambda>fy. map (\<lambda>fz. (fx, fy, fz)) [- fzl..fzl])
                   [- fyl..fyl])) [- fxl..fxl]))
                b
      in x_refresh sim 0 None (0, 0, 0) b)"

definition compute :: "('f, 'b) Simulation \<Rightarrow> ('f, 'b) CommBlock \<Rightarrow> ('f, 'b) CommBlock" where
  "compute sim b =
     (let b = fold (\<lambda>(index_method, method) b.
                 b\<lparr>cb_block := method (cb_block b),
                    cb_out := cb_out b @ [Compute_block index_method]\<rparr>)
                (enumerate 0 (problem_methods sim)) b;
          b = b\<lparr>cb_cycle := cb_cycle b + 1, cb_out := cb_out b @ [Set_cycle (cb_cycle b + 1)]\<rparr>;
          b = b\<lparr>cb_time := double_round (cb_time b + cb_dt b)\<rparr>
      in refresh sim b)"

definition p_compute ::
  "('f, 'b) Simulation \<Rightarrow> int \<Rightarrow> real \<Rightarrow> real \<Rightarrow> ('f, 'b) CommBlock \<Rightarrow> ('f, 'b) CommBlock" where
  "p_compute sim cycle time dt b = compute sim b"

section \<open>The notions of the specification\<close>

text \<open>
  The definitions of this section follow the words of the specification, not the code; the
  theorems compare them with the code. Section 3: a block index lies within the extents
  of the domain, and a neighbor direction is one of the 26 triples over \<open>-1, 0, 1\<close>
  other than \<open>(0, 0, 0)\<close>, of weight 1 (face), 2 (edge) or 3 (corner). The list goes
  through them in the order of the loops of \<^verbatim>\<open>refresh\<close>.
\<close>

definition every_axis :: "(axis_type \<Rightarrow> bool) \<Rightarrow> bool" where
  "every_axis P = (P axis_x \<and> P axis_y \<and> P axis_z)"

definition valid_index :: "('f, 'b) CommBlock \<Rightarrow> bool" where
  "valid_index b =
     every_axis (\<lambda>a. 0 \<le> along a (cb_index b) \<and> along a (cb_index b) < along a (cb_size b))"

definition directions :: "int3 list" where
  "directions =
     filter (\<lambda>d. d \<noteq> (0, 0, 0))
       (concat (map (\<lambda>dx. concat (map (\<lambda>dy. map (\<lambda>dz. (dx, dy, dz)) [- 1, 0, 1]) [- 1, 0, 1]))
          [- 1, 0, 1]))"

fun weight :: "int3 \<Rightarrow> int" where
  "weight (dx, dy, dz) = \<bar>dx\<bar> + \<bar>dy\<bar> + \<bar>dz\<bar>"

fun inverse_direction :: "int3 \<Rightarrow> int3" where
  "inverse_direction (dx, dy, dz) = (- dx, - dy, - dz)"

text \<open>
  Section 4.2: a direction is active iff, for every nonzero component, the block has more
  than one cell along the axis and the domain is periodic or the block is not on the domain
  boundary on that side; and the class of its weight is enabled (faces by
  \<^verbatim>\<open>refresh_face(2)\<close>, edges by \<^verbatim>\<open>refresh_face(1)\<close>, corners by \<^verbatim>\<open>refresh_face(0)\<close>).
  The code has one periodicity flag for all axes.
\<close>

definition side :: "int \<Rightarrow> face_type" where
  "side d = (if d < 0 then face_lower else face_upper)"

definition class_enabled :: "('f, 'b) Simulation \<Rightarrow> int3 \<Rightarrow> bool" where
  "class_enabled sim d =
     ((weight d = 1 \<and> field_refresh_face sim 2) \<or>
      (weight d = 2 \<and> field_refresh_face sim 1) \<or>
      (weight d = 3 \<and> field_refresh_face sim 0))"

definition spec_active :: "('f, 'b) Simulation \<Rightarrow> ('f, 'b) CommBlock \<Rightarrow> int3 \<Rightarrow> bool" where
  "spec_active sim b d =
     (d \<in> set directions \<and>
      every_axis (\<lambda>a. along a d \<noteq> 0 \<longrightarrow>
         1 < along a (field_size b) \<and>
         (boundary_is_periodic sim \<or> \<not> is_on_boundary b a (side (along a d)))) \<and>
      class_enabled sim d)"

text \<open>
  Section 4.1, \<open>neighbor\<close>: along a periodic axis the index wraps modulo the number of
  blocks; otherwise there is no neighbor when the index would leave the domain.
\<close>

definition spec_neighbor_axis :: "bool \<Rightarrow> int \<Rightarrow> int \<Rightarrow> int \<Rightarrow> int option" where
  "spec_neighbor_axis periodic n i d =
     (if periodic then Some ((i + d) mod n)
      else if 0 \<le> i + d \<and> i + d < n then Some (i + d) else None)"

definition spec_neighbor :: "('f, 'b) Simulation \<Rightarrow> ('f, 'b) CommBlock \<Rightarrow> int3 \<Rightarrow> int3 option" where
  "spec_neighbor sim b d =
     (let nb = (\<lambda>a. spec_neighbor_axis (boundary_is_periodic sim)
                       (along a (cb_size b)) (along a (cb_index b)) (along a d))
      in case (nb axis_x, nb axis_y, nb axis_z) of
           (Some x, Some y, Some z) \<Rightarrow> Some (x, y, z)
         | _ \<Rightarrow> None)"

definition wrapped :: "('f, 'b) CommBlock \<Rightarrow> int3 \<Rightarrow> int3" where
  "wrapped b d =
     ((along axis_x (cb_index b) + along axis_x d) mod along axis_x (cb_size b),
      (along axis_y (cb_index b) + along axis_y d) mod along axis_y (cb_size b),
      (along axis_z (cb_index b) + along axis_z d) mod along axis_z (cb_size b))"

text \<open>
  Section 4.4, the ghost message of a direction: the packed boundary layer, sent to the
  neighbor and addressed with the inverse direction.
\<close>

definition ghost_message :: "('f, 'b) Simulation \<Rightarrow> ('f, 'b) CommBlock \<Rightarrow> int3 \<Rightarrow> 'b event" where
  "ghost_message sim b d =
     (case face_load sim d (cb_block b) of (n, array) \<Rightarrow>
        Send (wrapped b d) n array (inverse_direction d))"

text \<open>The calls a member function adds to the record, and the kinds of calls.\<close>

definition new_calls ::
  "(('f, 'b) CommBlock \<Rightarrow> ('f, 'b) CommBlock) \<Rightarrow> ('f, 'b) CommBlock \<Rightarrow> 'b event list" where
  "new_calls f b = drop (length (cb_out b)) (cb_out (f b))"

fun is_Send :: "'b event \<Rightarrow> bool" where
  "is_Send (Send i n array tag) = True"
| "is_Send e = False"

fun is_Enforce :: "'b event \<Rightarrow> bool" where
  "is_Enforce (Enforce f a) = True"
| "is_Enforce e = False"

section \<open>Examples\<close>

text \<open>
  A simulation over field data that is one number, with the periodicity and the three
  refresh classes (face, edge, corner) as parameters: the timestep policy answers \<open>1 / 2\<close>,
  one output is scheduled at time 2, the run stops at time 10 or after 3 cycles, the
  boundary condition and the one method change the number. A block of the example is as its
  constructor leaves it.
\<close>

definition example_sim :: "bool \<Rightarrow> bool \<Rightarrow> bool \<Rightarrow> bool \<Rightarrow> (nat, nat) Simulation" where
  "example_sim periodic face edge corner =
     \<lparr>boundary_is_periodic = periodic,
      boundary_enforce = (\<lambda>f a data. data + 1),
      field_refresh_face = (\<lambda>i. if i = 2 then face else if i = 1 then edge else corner),
      face_load = (\<lambda>d data. (8, Some data)),
      face_store = (\<lambda>n buffer d data. data + 100),
      timestep_evaluate = (\<lambda>data. 1 / 2),
      output_schedules = [\<lambda>time dt. if time < 2 \<and> 2 < time + dt then 2 - time else dt],
      stopping_stop_time = 10,
      stopping_complete = (\<lambda>cycle time. 3 \<le> cycle),
      problem_methods = [\<lambda>data. 2 * data]\<rparr>"

definition example_block ::
  "(nat, nat) Simulation \<Rightarrow> int3 \<Rightarrow> int3 \<Rightarrow> int3 \<Rightarrow> (nat, nat) CommBlock" where
  "example_block sim ib nb n = CommBlock_new sim ib nb n 0"

section \<open>Auxiliary notions\<close>

text \<open>
  Names for the parts of \<^verbatim>\<open>refresh\<close> and \<^verbatim>\<open>count_refresh_\<close>, for the proofs: the flag
  both compute for a face (\<^verbatim>\<open>fxm\<close>, ..., after the adjustment for boundary faces), the
  condition, the message and the triples of the three nested loops, and the triples a loop
  with the limits \<^verbatim>\<open>fyl\<close> and \<^verbatim>\<open>fzl\<close> can reach.
\<close>

definition face_open :: "('f, 'b) Simulation \<Rightarrow> ('f, 'b) CommBlock \<Rightarrow> axis_type \<Rightarrow> face_type \<Rightarrow> bool" where
  "face_open sim b a s =
     (1 < along a (field_size b) \<and> (boundary_is_periodic sim \<or> \<not> is_on_boundary b a s))"

definition loop_cond :: "('f, 'b) Simulation \<Rightarrow> ('f, 'b) CommBlock \<Rightarrow> int3 \<Rightarrow> bool" where
  "loop_cond sim b d =
     ((array3 (face_open sim b axis_x face_lower) True (face_open sim b axis_x face_upper) (along axis_x d + 1) \<and>
       array3 (face_open sim b axis_y face_lower) True (face_open sim b axis_y face_upper) (along axis_y d + 1) \<and>
       array3 (face_open sim b axis_z face_lower) True (face_open sim b axis_z face_upper) (along axis_z d + 1)) \<and>
      class_enabled sim d)"

definition loop_send :: "('f, 'b) Simulation \<Rightarrow> ('f, 'b) CommBlock \<Rightarrow> int3 \<Rightarrow> 'f \<Rightarrow> 'b event" where
  "loop_send sim b d data =
     (case cb_index b of (ibx, iby, ibz) \<Rightarrow> case cb_size b of (nbx, nby, nbz) \<Rightarrow>
      case face_load sim d data of (n, array) \<Rightarrow>
        Send (array3 ((ibx - 1 + nbx) smod nbx) ibx ((ibx + 1) smod nbx) (along axis_x d + 1),
              array3 ((iby - 1 + nby) smod nby) iby ((iby + 1) smod nby) (along axis_y d + 1),
              array3 ((ibz - 1 + nbz) smod nbz) ibz ((ibz + 1) smod nbz) (along axis_z d + 1))
          n array (inverse_direction d))"

definition loop_list :: "('f, 'b) Simulation \<Rightarrow> ('f, 'b) CommBlock \<Rightarrow> int3 list" where
  "loop_list sim b =
     (let fyl = (if along axis_y (cb_size b) = 1 \<and> \<not> boundary_is_periodic sim then 0 else 1);
          fzl = (if along axis_z (cb_size b) = 1 \<and> \<not> boundary_is_periodic sim then 0 else 1)
      in concat (map (\<lambda>fx. concat (map (\<lambda>fy. map (\<lambda>fz. (fx, fy, fz)) [- fzl..fzl])
                   [- fyl..fyl])) [- 1..1]))"

definition in_loop :: "('f, 'b) Simulation \<Rightarrow> ('f, 'b) CommBlock \<Rightarrow> int3 \<Rightarrow> bool" where
  "in_loop sim b d =
     (d \<noteq> (0, 0, 0) \<and>
      (along axis_y (cb_size b) = 1 \<and> \<not> boundary_is_periodic sim \<longrightarrow> along axis_y d = 0) \<and>
      (along axis_z (cb_size b) = 1 \<and> \<not> boundary_is_periodic sim \<longrightarrow> along axis_z d = 0))"

text \<open>
  The faces in the order in which \<^verbatim>\<open>update_boundary_\<close> goes through them, its condition
  on a face, the calls \<^verbatim>\<open>prepare\<close> makes, and the block after \<^verbatim>\<open>x_refresh\<close> has stored
  the buffer and counted the arrival.
\<close>

definition faces :: "(face_type \<times> axis_type) list" where
  "faces = [(face_lower, axis_x), (face_upper, axis_x), (face_lower, axis_y),
            (face_upper, axis_y), (face_lower, axis_z), (face_upper, axis_z)]"

definition enforced :: "('f, 'b) CommBlock \<Rightarrow> face_type \<times> axis_type \<Rightarrow> bool" where
  "enforced b fa = (case fa of (f, a) \<Rightarrow> 1 < along a (field_size b) \<and> is_on_boundary b a f)"

definition prepare_calls :: "('f, 'b) Simulation \<Rightarrow> ('f, 'b) CommBlock \<Rightarrow> 'b event list" where
  "prepare_calls sim b =
     map (\<lambda>(f, a). Enforce f a) (filter (enforced b) faces) @
     [Contribute (min_reduce sim (update_boundary sim b))]"

definition arrived ::
  "('f, 'b) Simulation \<Rightarrow> int \<Rightarrow> 'b option \<Rightarrow> int3 \<Rightarrow> ('f, 'b) CommBlock \<Rightarrow> ('f, 'b) CommBlock" where
  "arrived sim n buffer f b =
     (if n \<noteq> 0
      then b\<lparr>cb_block := face_store sim n buffer f (cb_block b),
             cb_out := cb_out b @ [Store n buffer f],
             cb_sync_refresh := snd (Sync_done (cb_sync_refresh b))\<rparr>
      else b\<lparr>cb_sync_refresh := snd (Sync_done (cb_sync_refresh b))\<rparr>)"

text \<open>A ghost message with a given direction tag.\<close>

fun tagged :: "int3 \<Rightarrow> 'b event \<Rightarrow> bool" where
  "tagged t (Send i n array tag) = (tag = t)"
| "tagged t e = False"

text \<open>Further kinds of calls.\<close>

fun is_Contribute :: "'b event \<Rightarrow> bool" where
  "is_Contribute (Contribute r) = True"
| "is_Contribute e = False"

fun is_Store :: "'b event \<Rightarrow> bool" where
  "is_Store (Store n buffer f) = True"
| "is_Store e = False"

text \<open>
  The state in which \<^verbatim>\<open>compute\<close> calls \<^verbatim>\<open>refresh\<close>: the methods have run, the cycle
  counter and the time are advanced.
\<close>

definition computed :: "('f, 'b) Simulation \<Rightarrow> ('f, 'b) CommBlock \<Rightarrow> ('f, 'b) CommBlock" where
  "computed sim b =
     b\<lparr>cb_block := fold (\<lambda>method. method) (problem_methods sim) (cb_block b),
       cb_out := cb_out b @ map Compute_block [0..<length (problem_methods sim)] @
                   [Set_cycle (cb_cycle b + 1)],
       cb_cycle := cb_cycle b + 1,
       cb_time := double_round (cb_time b + cb_dt b)\<rparr>"

text \<open>
  The entry methods of the block, which the Simulation, the reduction and the other blocks
  invoke, and a run of the block: it is constructed, \<^verbatim>\<open>refresh\<close> is called on it once, and
  then entry methods are invoked one after the other.
\<close>

datatype 'b entry =
    P_compute int real real
  | X_refresh int "'b option" int3
  | P_output "real \<times> real"

fun invoke :: "('f, 'b) Simulation \<Rightarrow> 'b entry \<Rightarrow> ('f, 'b) CommBlock \<Rightarrow> ('f, 'b) CommBlock" where
  "invoke sim (P_compute cycle time dt) b = p_compute sim cycle time dt b"
| "invoke sim (X_refresh n buffer f) b = x_refresh sim n buffer f b"
| "invoke sim (P_output r) b = p_output r b"

definition run :: "('f, 'b) Simulation \<Rightarrow> 'b entry list \<Rightarrow> ('f, 'b) CommBlock \<Rightarrow> ('f, 'b) CommBlock" where
  "run sim es b = fold (invoke sim) es (refresh sim b)"

text \<open>
  Two orders of the calls within a cycle, a cycle ending where the counter is raised. The
  order of claim C4: a ghost message is sent only after the contribution of the cycle. The
  order of the code: a ghost message is sent only before the contribution of the cycle and
  the result of its reduction. The flag says whether the cycle has contributed (in the
  second order: or received a result).
\<close>

fun contribution_precedes_send :: "bool \<Rightarrow> 'b event list \<Rightarrow> bool" where
  "contribution_precedes_send c [] = True"
| "contribution_precedes_send c (Set_cycle n # t) = contribution_precedes_send False t"
| "contribution_precedes_send c (Contribute r # t) = contribution_precedes_send True t"
| "contribution_precedes_send c (Send i n array tag # t) = (c \<and> contribution_precedes_send c t)"
| "contribution_precedes_send c (e # t) = contribution_precedes_send c t"

fun sends_precede_reduction :: "bool \<Rightarrow> 'b event list \<Rightarrow> bool" where
  "sends_precede_reduction c [] = True"
| "sends_precede_reduction c (Set_cycle n # t) = sends_precede_reduction False t"
| "sends_precede_reduction c (Contribute r # t) = sends_precede_reduction True t"
| "sends_precede_reduction c (Update_state cycle time dt stop # t) =
     sends_precede_reduction True t"
| "sends_precede_reduction c (Send i n array tag # t) = (\<not> c \<and> sends_precede_reduction c t)"
| "sends_precede_reduction c (e # t) = sends_precede_reduction c t"

text \<open>Further kinds of calls, and the kinds of entry methods.\<close>

fun is_Update_state :: "'b event \<Rightarrow> bool" where
  "is_Update_state (Update_state cycle time dt stop) = True"
| "is_Update_state e = False"

fun is_Simulation_p_output :: "'b event \<Rightarrow> bool" where
  "is_Simulation_p_output Simulation_p_output = True"
| "is_Simulation_p_output e = False"

fun is_Set_cycle :: "'b event \<Rightarrow> bool" where
  "is_Set_cycle (Set_cycle n) = True"
| "is_Set_cycle e = False"

fun is_Compute_block :: "'b event \<Rightarrow> bool" where
  "is_Compute_block (Compute_block i) = True"
| "is_Compute_block e = False"

fun is_P_output :: "'b entry \<Rightarrow> bool" where
  "is_P_output (P_output r) = True"
| "is_P_output e = False"

fun is_X_refresh :: "'b entry \<Rightarrow> bool" where
  "is_X_refresh (X_refresh n buffer f) = True"
| "is_X_refresh e = False"

text \<open>
  Modelled from the spec: what invokes the entry methods \<^verbatim>\<open>p_output\<close> and
  \<^verbatim>\<open>p_compute\<close> of a block, the reduction of Charm++ and the class SimulationCharm, is
  not in the sources. Section 4.5: the reduction completes only with a contribution from
  every actor, and broadcasts one result; so \<^verbatim>\<open>p_output\<close> reaches a block only when
  the block has made a contribution that is not answered yet. Sections 4.4 and 5: an actor is
  suspended until the result is delivered and goes on only then; in the code the block
  reports to the Simulation at the end of \<^verbatim>\<open>p_output\<close>
  (\<^verbatim>\<open>simulation_charm->p_output()\<close>, where all blocks check in), so \<^verbatim>\<open>p_compute\<close>
  reaches a block only when the block has checked in since its last \<^verbatim>\<open>compute\<close>.
  Ghost messages arrive at any time. \<open>driven\<close> says that a sequence of entry methods,
  invoked on a block from a given state on, is of this kind.
\<close>

fun driven :: "('f, 'b) Simulation \<Rightarrow> 'b entry list \<Rightarrow> ('f, 'b) CommBlock \<Rightarrow> bool" where
  "driven sim [] b = True"
| "driven sim (P_output r # es) b =
     (length (filter is_Update_state (cb_out b)) < length (filter is_Contribute (cb_out b)) \<and>
      driven sim es (p_output r b))"
| "driven sim (P_compute cycle time dt # es) b =
     (length (filter is_Set_cycle (cb_out b)) <
        length (filter is_Simulation_p_output (cb_out b)) \<and>
      driven sim es (p_compute sim cycle time dt b))"
| "driven sim (X_refresh n buffer f # es) b = driven sim es (x_refresh sim n buffer f b)"

text \<open>
  The order of claim C2 on the calls of a block: a Method is invoked and the cycle counter is
  raised for the \<open>j + 1\<close>st time only when at least \<open>j + 1\<close> ghost quorums have been reached
  (the block contributes in the call that reaches a quorum) and at least \<open>j + 1\<close> results of
  the reduction have been received. The three numbers count the contributions, the results
  and the raisings of the counter so far. \<open>compute_after_quorum\<close> is its part on the
  quorums, the second half of claim C4.
\<close>

fun begins_after :: "nat \<Rightarrow> nat \<Rightarrow> nat \<Rightarrow> 'b event list \<Rightarrow> bool" where
  "begins_after k u j [] = True"
| "begins_after k u j (Contribute r # t) = begins_after (Suc k) u j t"
| "begins_after k u j (Update_state cycle time dt stop # t) = begins_after k (Suc u) j t"
| "begins_after k u j (Compute_block i # t) = (j < k \<and> j < u \<and> begins_after k u j t)"
| "begins_after k u j (Set_cycle n # t) = (j < k \<and> j < u \<and> begins_after k u (Suc j) t)"
| "begins_after k u j (e # t) = begins_after k u j t"

fun compute_after_quorum :: "nat \<Rightarrow> nat \<Rightarrow> 'b event list \<Rightarrow> bool" where
  "compute_after_quorum k j [] = True"
| "compute_after_quorum k j (Contribute r # t) = compute_after_quorum (Suc k) j t"
| "compute_after_quorum k j (Compute_block i # t) = (j < k \<and> compute_after_quorum k j t)"
| "compute_after_quorum k j (Set_cycle n # t) = (j < k \<and> compute_after_quorum k (Suc j) t)"
| "compute_after_quorum k j (e # t) = compute_after_quorum k j t"

text \<open>
  What the calls made so far say of a block that was driven: the order above, and that of
  contribution, result, check-in and raising of the counter each has happened at least as
  often as the next.
\<close>

definition in_step :: "'b event list \<Rightarrow> bool" where
  "in_step t =
     (begins_after 0 0 0 t \<and>
      length (filter is_Set_cycle t) \<le> length (filter is_Simulation_p_output t) \<and>
      length (filter is_Simulation_p_output t) = length (filter is_Update_state t) \<and>
      length (filter is_Update_state t) \<le> length (filter is_Contribute t))"

text \<open>
  The cycle counter, the time and the timestep of a block, and what an entry method makes of
  them: an arriving ghost message does not touch them.
\<close>

definition clock :: "('f, 'b) CommBlock \<Rightarrow> int \<times> real \<times> real" where
  "clock b = (cb_cycle b, cb_time b, cb_dt b)"

fun tick :: "'b entry \<Rightarrow> int \<times> real \<times> real \<Rightarrow> int \<times> real \<times> real" where
  "tick (P_compute c t d) (cycle, time, dt) = (cycle + 1, double_round (time + dt), dt)"
| "tick (X_refresh n buffer f) (cycle, time, dt) = (cycle, time, dt)"
| "tick (P_output r) (cycle, time, dt) = (cycle, time, fst r)"

text \<open>
  The example with a timestep policy that depends on the field data, stopping from a given
  cycle on.
\<close>

definition example_sim_data :: "int \<Rightarrow> (nat, nat) Simulation" where
  "example_sim_data stop_cycle =
     (example_sim False True False False)
       \<lparr>timestep_evaluate := (\<lambda>data. 1 / 2 ^ data),
        stopping_complete := (\<lambda>cycle time. stop_cycle \<le> cycle)\<rparr>"

text \<open>
  A simulation that stops at the time 0.9, whose timestep policy answers 0.3 for the initial
  field data and 1 afterwards; both are the nearest doubles. Its one method counts the cycles
  in the field data; boundary conditions and ghost zones leave the data as they are.
\<close>

definition overshoot_sim :: "(nat, nat) Simulation" where
  "overshoot_sim =
     \<lparr>boundary_is_periodic = False,
      boundary_enforce = (\<lambda>f a data. data),
      field_refresh_face = (\<lambda>i. i = 2),
      face_load = (\<lambda>d data. (8, Some data)),
      face_store = (\<lambda>n buffer d data. data),
      timestep_evaluate = (\<lambda>data. if data = 0 then double_round (3 / 10) else 1),
      output_schedules = [],
      stopping_stop_time = double_round (9 / 10),
      stopping_complete = (\<lambda>cycle time. double_round (9 / 10) \<le> time),
      problem_methods = [\<lambda>data. data + 1]\<rparr>"

section \<open>The quorum in a periodic domain\<close>

lemma count_refresh_periodic:
  assumes "boundary_is_periodic sim"
    and "every_axis (\<lambda>a. 1 < along a (field_size b))"
  shows "count_refresh sim b =
           1 + (if field_refresh_face sim 2 then 6 else 0)
             + (if field_refresh_face sim 1 then 12 else 0)
             + (if field_refresh_face sim 0 then 8 else 0)"
  using assms
  by (cases "field_size b") (simp add: count_refresh_def every_axis_def incr_def)

text \<open>
  Claim C3, as amended. In a periodic domain with at least three blocks along every axis, a
  block with more than one cell along every axis has the quorum 7 when only faces are
  refreshed, 19 when edges are refreshed as well, and 27 when corners are refreshed as well.
\<close>

theorem quorum_periodic_domain:
  assumes "boundary_is_periodic sim"
    and "every_axis (\<lambda>a. 3 \<le> along a (cb_size b))"
    and "every_axis (\<lambda>a. 1 < along a (field_size b))"
  shows "(field_refresh_face sim 2 \<and> \<not> field_refresh_face sim 1 \<and> \<not> field_refresh_face sim 0
            \<longrightarrow> count_refresh sim b = 7) \<and>
         (field_refresh_face sim 2 \<and> field_refresh_face sim 1 \<and> \<not> field_refresh_face sim 0
            \<longrightarrow> count_refresh sim b = 19) \<and>
         (field_refresh_face sim 2 \<and> field_refresh_face sim 1 \<and> field_refresh_face sim 0
            \<longrightarrow> count_refresh sim b = 27)"
  using count_refresh_periodic [OF assms(1) assms(3)] by simp

text \<open>The three refresh classes on blocks of periodic domains.\<close>

theorem quorum_periodic_domain_witness:
  "count_refresh (example_sim True True False False)
     (example_block (example_sim True True False False) (0, 1, 2) (3, 3, 3) (8, 8, 8)) = 7 \<and>
   count_refresh (example_sim True True True False)
     (example_block (example_sim True True True False) (0, 1, 2) (3, 4, 5) (8, 4, 2)) = 19 \<and>
   count_refresh (example_sim True True True True)
     (example_block (example_sim True True True True) (2, 2, 2) (3, 3, 3) (2, 2, 2)) = 27"
  using quorum_periodic_domain [of "example_sim True True False False"
      "example_block (example_sim True True False False) (0, 1, 2) (3, 3, 3) (8, 8, 8)"]
    quorum_periodic_domain [of "example_sim True True True False"
      "example_block (example_sim True True True False) (0, 1, 2) (3, 4, 5) (8, 4, 2)"]
    quorum_periodic_domain [of "example_sim True True True True"
      "example_block (example_sim True True True True) (2, 2, 2) (3, 3, 3) (2, 2, 2)"]
  by (simp add: example_sim_def example_block_def CommBlock_new_def every_axis_def)

text \<open>
  Claim C3 as it was stated has no condition on the cells of the block. The middle block of
  a periodic domain of \<open>3 \<times> 3 \<times> 3\<close> blocks, with \<open>8 \<times> 8 \<times> 1\<close> cells and faces
  refreshed only, has the quorum 5: \<^verbatim>\<open>fzm\<close> and \<^verbatim>\<open>fzp\<close> are false since
  \<^verbatim>\<open>nz > 1\<close> is.
\<close>

theorem quorum_single_cell_axis_counterexample:
  "boundary_is_periodic (example_sim True True False False) \<and>
   field_refresh_face (example_sim True True False False) 2 \<and>
   \<not> field_refresh_face (example_sim True True False False) 1 \<and>
   \<not> field_refresh_face (example_sim True True False False) 0 \<and>
   cb_size (example_block (example_sim True True False False) (1, 1, 1) (3, 3, 3) (8, 8, 1)) = (3, 3, 3) \<and>
   cb_index (example_block (example_sim True True False False) (1, 1, 1) (3, 3, 3) (8, 8, 1)) = (1, 1, 1) \<and>
   count_refresh (example_sim True True False False)
     (example_block (example_sim True True False False) (1, 1, 1) (3, 3, 3) (8, 8, 1)) = 5"
  by (simp add: example_sim_def example_block_def CommBlock_new_def count_refresh_def incr_def)

section \<open>The ghost messages of refresh and the count of count\_refresh\_\<close>

lemma directions_eq:
  "directions =
    [(-1,-1,-1), (-1,-1,0), (-1,-1,1), (-1,0,-1), (-1,0,0), (-1,0,1), (-1,1,-1), (-1,1,0), (-1,1,1),
     (0,-1,-1), (0,-1,0), (0,-1,1), (0,0,-1), (0,0,1), (0,1,-1), (0,1,0), (0,1,1),
     (1,-1,-1), (1,-1,0), (1,-1,1), (1,0,-1), (1,0,0), (1,0,1), (1,1,-1), (1,1,0), (1,1,1)]"
  by (simp add: directions_def)

lemma length_filter_incr:
  "int (length (filter P xs)) = sum_list (map (\<lambda>x. incr (P x) 0) xs)"
  by (induction xs) (simp_all add: incr_def)

lemma incr_of_bool: "incr c n = n + of_bool c"
  by (simp add: incr_def)

lemma spec_active_flags:
  "spec_active sim b (dx, dy, dz) =
     ((dx, dy, dz) \<in> set directions \<and>
      (dx \<noteq> 0 \<longrightarrow> face_open sim b axis_x (side dx)) \<and>
      (dy \<noteq> 0 \<longrightarrow> face_open sim b axis_y (side dy)) \<and>
      (dz \<noteq> 0 \<longrightarrow> face_open sim b axis_z (side dz)) \<and>
      class_enabled sim (dx, dy, dz))"
  by (simp add: spec_active_def every_axis_def face_open_def)

lemma count_refresh_flags:
  "count_refresh sim b =
     (let fxm = face_open sim b axis_x face_lower; fxp = face_open sim b axis_x face_upper;
          fym = face_open sim b axis_y face_lower; fyp = face_open sim b axis_y face_upper;
          fzm = face_open sim b axis_z face_lower; fzp = face_open sim b axis_z face_upper
      in 1 + (if field_refresh_face sim 2 then
               of_bool fxm + of_bool fxp + of_bool fym + of_bool fyp + of_bool fzm + of_bool fzp else 0)
           + (if field_refresh_face sim 1 then
               of_bool (fxm \<and> fym) + of_bool (fxm \<and> fyp) + of_bool (fxp \<and> fym) + of_bool (fxp \<and> fyp) +
               of_bool (fym \<and> fzm) + of_bool (fym \<and> fzp) + of_bool (fyp \<and> fzm) + of_bool (fyp \<and> fzp) +
               of_bool (fxm \<and> fzm) + of_bool (fxp \<and> fzm) + of_bool (fxm \<and> fzp) + of_bool (fxp \<and> fzp) else 0)
           + (if field_refresh_face sim 0 then
               of_bool (fxm \<and> fym \<and> fzm) + of_bool (fxm \<and> fym \<and> fzp) + of_bool (fxm \<and> fyp \<and> fzm) +
               of_bool (fxm \<and> fyp \<and> fzp) + of_bool (fxp \<and> fym \<and> fzm) + of_bool (fxp \<and> fym \<and> fzp) +
               of_bool (fxp \<and> fyp \<and> fzm) + of_bool (fxp \<and> fyp \<and> fzp) else 0))"
  by (cases "field_size b")
     (simp add: count_refresh_def face_open_def incr_of_bool Let_def conj_commute)

lemma count_refresh_active:
  "count_refresh sim b = 1 + int (length (filter (spec_active sim b) directions))"
  unfolding length_filter_incr count_refresh_flags
  apply (simp only: directions_eq list.map sum_list.Cons sum_list.Nil spec_active_flags)
  apply (simp add: directions_eq side_def class_enabled_def incr_of_bool Let_def)
  done

lemma fold_sends:
  assumes "\<And>d b. step d b = (if P d then b\<lparr>cb_out := cb_out b @ [m d (cb_block b)]\<rparr> else b)"
  shows "fold step ds b = b\<lparr>cb_out := cb_out b @ map (\<lambda>d. m d (cb_block b)) (filter P ds)\<rparr>"
  by (induction ds arbitrary: b) (simp_all add: assms)

lemma smod_nonneg: "0 \<le> a \<Longrightarrow> 0 < b \<Longrightarrow> a smod b = a mod (b::int)"
  by (simp add: signed_modulo_int_def sgn_if)

lemma refresh_loop:
  "refresh sim b =
     x_refresh sim 0 None (0, 0, 0)
       (b\<lparr>cb_out := cb_out b @
            map (\<lambda>d. loop_send sim b d (cb_block b)) (filter (loop_cond sim b) (loop_list sim b))\<rparr>)"
proof -
  obtain ibx iby ibz where i: "cb_index b = (ibx, iby, ibz)" by (cases "cb_index b") auto
  obtain nbx nby nbz where n: "cb_size b = (nbx, nby, nbz)" by (cases "cb_size b") auto
  obtain nx ny nz where c: "field_size b = (nx, ny, nz)" by (cases "field_size b") auto
  show ?thesis
    unfolding refresh_def determine_boundary_def i n c prod.case Let_def
    apply (subst fold_sends [where P = "loop_cond sim b" and m = "loop_send sim b"])
    subgoal for d b'
      by (cases d)
        (simp add: loop_cond_def loop_send_def i n c face_open_def class_enabled_def split: prod.splits)
    apply (simp add: loop_list_def n Let_def)
    done
qed

lemma directions_components:
  "(dx, dy, dz) \<in> set directions \<Longrightarrow>
     dx \<in> {- 1, 0, 1} \<and> dy \<in> {- 1, 0, 1} \<and> dz \<in> {- 1, 0, 1}"
  by (auto simp: directions_def)

lemma array3_side:
  "dx \<in> {- 1, 0, 1} \<Longrightarrow> array3 (F face_lower) True (F face_upper) (dx + 1) = (dx \<noteq> 0 \<longrightarrow> F (side dx))"
  by (auto simp: array3_def side_def)

lemma loop_cond_active:
  assumes "d \<in> set directions"
  shows "loop_cond sim b d = spec_active sim b d"
proof -
  obtain dx dy dz where d: "d = (dx, dy, dz)" by (cases d) auto
  have m: "(dx, dy, dz) \<in> set directions" using assms d by simp
  have c: "dx \<in> {- 1, 0, 1}" "dy \<in> {- 1, 0, 1}" "dz \<in> {- 1, 0, 1}"
    using directions_components [OF m] by simp_all
  have "loop_cond sim b (dx, dy, dz) =
          (((dx \<noteq> 0 \<longrightarrow> face_open sim b axis_x (side dx)) \<and>
            (dy \<noteq> 0 \<longrightarrow> face_open sim b axis_y (side dy)) \<and>
            (dz \<noteq> 0 \<longrightarrow> face_open sim b axis_z (side dz))) \<and>
           class_enabled sim (dx, dy, dz))"
    unfolding loop_cond_def along.simps
      array3_side [OF c(1)] array3_side [OF c(2)] array3_side [OF c(3)] ..
  also have "\<dots> = spec_active sim b (dx, dy, dz)"
    unfolding spec_active_flags using m by simp
  finally show ?thesis unfolding d .
qed

lemma filter_via:
  "(\<And>x. x \<in> set xs \<Longrightarrow> P x \<Longrightarrow> Q x) \<Longrightarrow> filter P xs = filter P (filter Q xs)"
  by (induction xs) auto

lemma upto_loops: "[- 1..1] = [- 1, 0, 1 :: int]" "[- 0..0] = [0 :: int]"
  by (simp_all add: upto.simps)

lemma loop_cond_nonzero: "loop_cond sim b d \<Longrightarrow> d \<noteq> (0, 0, 0)"
  by (auto simp: loop_cond_def class_enabled_def)

lemma valid_index_axis:
  "valid_index b \<Longrightarrow> 0 \<le> along a (cb_index b) \<and> along a (cb_index b) < along a (cb_size b)"
  by (cases a) (simp_all add: valid_index_def every_axis_def)

lemma face_closed_single:
  assumes "valid_index b" "along a (cb_size b) = 1" "\<not> boundary_is_periodic sim"
  shows "\<not> face_open sim b a s"
proof -
  have "along a (cb_index b) = 0" using valid_index_axis [OF assms(1), of a] assms(2) by simp
  then show ?thesis using assms(2,3)
    by (cases s) (simp_all add: face_open_def is_on_boundary_def)
qed

lemma loop_cond_in_loop:
  assumes "valid_index b" "loop_cond sim b d"
  shows "in_loop sim b d"
proof -
  obtain dx dy dz where d: "d = (dx, dy, dz)" by (cases d) auto
  have y: "dy = 0" if "along axis_y (cb_size b) = 1 \<and> \<not> boundary_is_periodic sim"
    using face_closed_single [OF assms(1), of axis_y sim] that assms(2)
    by (auto simp: loop_cond_def d array3_def split: if_splits)
  have z: "dz = 0" if "along axis_z (cb_size b) = 1 \<and> \<not> boundary_is_periodic sim"
    using face_closed_single [OF assms(1), of axis_z sim] that assms(2)
    by (auto simp: loop_cond_def d array3_def split: if_splits)
  show ?thesis using y z loop_cond_nonzero [OF assms(2)] by (simp add: in_loop_def d)
qed

lemma in_loop_lists:
  "filter (in_loop sim b) (loop_list sim b) = filter (in_loop sim b) directions"
  by (simp add: loop_list_def in_loop_def directions_eq upto_loops Let_def)

lemma loop_sends_active:
  assumes "valid_index b"
  shows "filter (loop_cond sim b) (loop_list sim b) = filter (spec_active sim b) directions"
proof -
  have "filter (loop_cond sim b) (loop_list sim b)
          = filter (loop_cond sim b) (filter (in_loop sim b) (loop_list sim b))"
    by (rule filter_via) (rule loop_cond_in_loop [OF assms])
  also have "\<dots> = filter (loop_cond sim b) (filter (in_loop sim b) directions)"
    by (simp only: in_loop_lists)
  also have "\<dots> = filter (loop_cond sim b) directions"
    by (rule filter_via [symmetric]) (rule loop_cond_in_loop [OF assms])
  also have "\<dots> = filter (spec_active sim b) directions"
    by (rule filter_cong) (simp_all add: loop_cond_active)
  finally show ?thesis .
qed

lemma array3_wrapped:
  assumes "0 \<le> i" "i < n" "d \<in> {- 1, 0, 1}"
  shows "array3 ((i - 1 + n) smod n) i ((i + 1) smod n) (d + 1) = (i + d) mod n"
proof -
  have "(i - 1 + n) smod n = (i - 1 + n) mod n" "(i + 1) smod n = (i + 1) mod n"
    using assms(1,2) by (simp_all add: smod_nonneg)
  moreover have "(i - 1 + n) mod n = (i + - 1) mod n" by simp
  moreover have "i = (i + 0) mod n" using assms(1,2) by simp
  ultimately show ?thesis using assms(3) by (auto simp: array3_def)
qed

lemma loop_send_ghost:
  assumes "valid_index b" "d \<in> set directions"
  shows "loop_send sim b d (cb_block b) = ghost_message sim b d"
proof -
  obtain dx dy dz where d: "d = (dx, dy, dz)" by (cases d) auto
  obtain ibx iby ibz where i: "cb_index b = (ibx, iby, ibz)" by (cases "cb_index b") auto
  obtain nbx nby nbz where n: "cb_size b = (nbx, nby, nbz)" by (cases "cb_size b") auto
  have c: "dx \<in> {- 1, 0, 1}" "dy \<in> {- 1, 0, 1}" "dz \<in> {- 1, 0, 1}"
    using directions_components [of dx dy dz] assms(2) d by simp_all
  have v: "0 \<le> ibx" "ibx < nbx" "0 \<le> iby" "iby < nby" "0 \<le> ibz" "ibz < nbz"
    using valid_index_axis [OF assms(1), of axis_x] valid_index_axis [OF assms(1), of axis_y]
      valid_index_axis [OF assms(1), of axis_z] by (simp_all add: i n)
  show ?thesis
    by (simp add: loop_send_def ghost_message_def wrapped_def i n d
        array3_wrapped [OF v(1,2) c(1)] array3_wrapped [OF v(3,4) c(2)] array3_wrapped [OF v(5,6) c(3)])
qed

lemma refresh_sends:
  assumes "valid_index b"
  shows "refresh sim b =
     x_refresh sim 0 None (0, 0, 0)
       (b\<lparr>cb_out := cb_out b @ map (ghost_message sim b) (filter (spec_active sim b) directions)\<rparr>)"
proof -
  have eq: "map (\<lambda>d. loop_send sim b d (cb_block b)) (filter (spec_active sim b) directions)
          = map (ghost_message sim b) (filter (spec_active sim b) directions)"
    by (rule map_cong) (simp_all add: loop_send_ghost [OF assms])
  show ?thesis
    unfolding refresh_loop loop_sends_active [OF assms] eq ..
qed

section \<open>The calls of prepare, x\_refresh and refresh\<close>

lemma update_boundary_fold:
  "update_boundary sim b =
     fold (\<lambda>fa b'. if enforced b fa then enforce sim (fst fa) (snd fa) b' else b') faces b"
  by (cases "field_size b")
     (simp add: update_boundary_def determine_boundary_def faces_def enforced_def Let_def)

lemma fold_enforce:
  "fold (\<lambda>fa b'. if P fa then enforce sim (fst fa) (snd fa) b' else b') fs b =
     b\<lparr>cb_block := fold (\<lambda>fa. boundary_enforce sim (fst fa) (snd fa)) (filter P fs) (cb_block b),
       cb_out := cb_out b @ map (\<lambda>(f, a). Enforce f a) (filter P fs)\<rparr>"
  by (induction fs arbitrary: b) (simp_all add: enforce_def split_def)

lemma update_boundary_eq:
  "update_boundary sim b =
     b\<lparr>cb_block := fold (\<lambda>fa. boundary_enforce sim (fst fa) (snd fa)) (filter (enforced b) faces)
                      (cb_block b),
       cb_out := cb_out b @ map (\<lambda>(f, a). Enforce f a) (filter (enforced b) faces)\<rparr>"
  by (simp only: update_boundary_fold fold_enforce)

lemma update_boundary_frame:
  "cb_index (update_boundary sim b) = cb_index b"
  "cb_size (update_boundary sim b) = cb_size b"
  "cb_cycle (update_boundary sim b) = cb_cycle b"
  "cb_time (update_boundary sim b) = cb_time b"
  "cb_dt (update_boundary sim b) = cb_dt b"
  "field_size (update_boundary sim b) = field_size b"
  "cb_sync_refresh (update_boundary sim b) = cb_sync_refresh b"
  by (simp_all add: update_boundary_eq)

lemma prepare_out: "cb_out (prepare sim b) = cb_out b @ prepare_calls sim b"
  by (simp add: prepare_def prepare_calls_def Let_def update_boundary_eq)

lemma prepare_frame:
  "cb_index (prepare sim b) = cb_index b"
  "cb_size (prepare sim b) = cb_size b"
  "cb_cycle (prepare sim b) = cb_cycle b"
  "cb_time (prepare sim b) = cb_time b"
  "cb_dt (prepare sim b) = cb_dt b"
  "field_size (prepare sim b) = field_size b"
  "cb_sync_refresh (prepare sim b) = cb_sync_refresh b"
  "cb_block (prepare sim b) = cb_block (update_boundary sim b)"
  by (simp_all add: prepare_def Let_def update_boundary_frame)

lemma x_refresh_eq:
  "x_refresh sim n buffer f b =
     (if fst (Sync_done (cb_sync_refresh b)) then prepare sim (arrived sim n buffer f b)
      else arrived sim n buffer f b)"
  by (simp add: x_refresh_def arrived_def Let_def split_def)

lemma x_refresh_out:
  "cb_out (x_refresh sim n buffer f b) =
     cb_out b @ (if n \<noteq> 0 then [Store n buffer f] else []) @
     (if fst (Sync_done (cb_sync_refresh b)) then prepare_calls sim (arrived sim n buffer f b)
      else [])"
  by (simp add: x_refresh_eq prepare_out) (simp add: arrived_def)

lemma is_Send_prepare_calls: "filter is_Send (prepare_calls sim b) = []"
  by (simp add: prepare_calls_def filter_empty_conv split_def)

lemma is_Send_ghost: "is_Send (ghost_message sim b d)"
  by (simp add: ghost_message_def split_def)

lemma refresh_out:
  assumes "valid_index b"
  shows "cb_out (refresh sim b) =
           cb_out b @ map (ghost_message sim b) (filter (spec_active sim b) directions) @
           (if fst (Sync_done (cb_sync_refresh b))
            then prepare_calls sim
                   (arrived sim 0 None (0, 0, 0)
                      (b\<lparr>cb_out := cb_out b @
                           map (ghost_message sim b) (filter (spec_active sim b) directions)\<rparr>))
            else [])"
  by (simp add: refresh_sends [OF assms] x_refresh_out)

lemma refresh_new_sends:
  assumes "valid_index b"
  shows "filter is_Send (new_calls (refresh sim) b) =
           map (ghost_message sim b) (filter (spec_active sim b) directions)"
proof -
  have "filter is_Send (map (ghost_message sim b) ds) = map (ghost_message sim b) ds" for ds
    by (induction ds) (simp_all add: is_Send_ghost)
  then show ?thesis
    by (simp add: new_calls_def refresh_out [OF assms] is_Send_prepare_calls)
qed

section \<open>The ghost messages and the active directions\<close>

lemma tagged_ghost: "tagged t (ghost_message sim b d) = (inverse_direction d = t)"
  by (simp add: ghost_message_def split_def)

lemma inverse_direction_eq: "(inverse_direction d' = inverse_direction d) = (d' = d)"
  by (cases d; cases d') auto

lemma tagged_prepare_calls: "filter (tagged t) (prepare_calls sim b) = []"
  by (simp add: prepare_calls_def filter_empty_conv split_def)

lemma distinct_directions: "distinct directions"
  by (simp add: directions_eq)

lemma count_one:
  "distinct xs \<Longrightarrow> length (filter (\<lambda>x. x = d) (filter P xs)) = (if d \<in> set xs \<and> P d then 1 else 0)"
  by (induction xs) auto

lemma spec_active_direction: "spec_active sim b d \<Longrightarrow> d \<in> set directions"
  by (simp add: spec_active_def)

lemma refresh_tag_count:
  assumes "valid_index b"
  shows "length (filter (tagged (inverse_direction d)) (new_calls (refresh sim) b)) =
           (if spec_active sim b d then 1 else 0)"
proof -
  have "filter (tagged (inverse_direction d)) (map (ghost_message sim b) ds) =
          map (ghost_message sim b) (filter (\<lambda>x. x = d) ds)" for ds
    by (induction ds) (simp_all add: tagged_ghost inverse_direction_eq)
  then have "length (filter (tagged (inverse_direction d)) (new_calls (refresh sim) b)) =
          length (filter (\<lambda>x. x = d) (filter (spec_active sim b) directions))"
    by (simp add: new_calls_def refresh_out [OF assms] tagged_prepare_calls)
  also have "\<dots> = (if d \<in> set directions \<and> spec_active sim b d then 1 else 0)"
    by (rule count_one [OF distinct_directions])
  also have "\<dots> = (if spec_active sim b d then 1 else 0)"
    using spec_active_direction [of sim b d] by auto
  finally show ?thesis .
qed

lemma spec_neighbor_axis_wrapped:
  assumes "0 \<le> i" "i < n" "d \<in> {- 1, 0, 1}"
    and "d \<noteq> 0 \<longrightarrow> periodic \<or> \<not> (case side d of face_lower \<Rightarrow> i = 0 | face_upper \<Rightarrow> i = n - 1)"
  shows "spec_neighbor_axis periodic n i d = Some ((i + d) mod n)"
  using assms by (auto simp: spec_neighbor_axis_def side_def)

lemma spec_active_axis:
  "spec_active sim b d \<Longrightarrow>
     along a d \<noteq> 0 \<longrightarrow> 1 < along a (field_size b) \<and>
       (boundary_is_periodic sim \<or> \<not> is_on_boundary b a (side (along a d)))"
  by (cases a) (simp_all add: spec_active_def every_axis_def)

lemma directions_along: "d \<in> set directions \<Longrightarrow> along a d \<in> {- 1, 0, 1}"
  using directions_components [of "fst d" "fst (snd d)" "snd (snd d)"]
  by (cases a; cases d) auto

lemma spec_neighbor_active:
  assumes "valid_index b" "spec_active sim b d"
  shows "spec_neighbor sim b d = Some (wrapped b d)"
proof -
  have "spec_neighbor_axis (boundary_is_periodic sim) (along a (cb_size b))
          (along a (cb_index b)) (along a d)
        = Some ((along a (cb_index b) + along a d) mod along a (cb_size b))" for a
    using valid_index_axis [OF assms(1), of a] spec_active_axis [OF assms(2), of a]
      directions_along [OF spec_active_direction [OF assms(2)], of a]
    by (intro spec_neighbor_axis_wrapped) (simp_all add: is_on_boundary_def)
  then show ?thesis by (simp add: spec_neighbor_def wrapped_def)
qed

text \<open>
  Claim C7. For a block whose index lies in the domain, the ghost messages \<^verbatim>\<open>refresh\<close>
  sends are those of the active directions of section 4.2, in the order of the loops: each
  goes to the index of the block plus the direction, wrapped modulo the number of blocks
  along each axis, with the inverse direction as its tag. Every active direction has exactly
  one message with its tag, every other direction none. The destination of an active
  direction is the neighbor of section 4.1, which does not exist across a boundary of a
  domain that is not periodic.
\<close>

theorem refresh_ghost_messages:
  assumes "valid_index b"
  shows "filter is_Send (new_calls (refresh sim) b) =
           map (ghost_message sim b) (filter (spec_active sim b) directions) \<and>
         (\<forall>d. length (filter (tagged (inverse_direction d)) (new_calls (refresh sim) b)) =
                (if spec_active sim b d then 1 else 0)) \<and>
         (\<forall>d. spec_active sim b d \<longrightarrow>
                ghost_message sim b d \<in> set (new_calls (refresh sim) b) \<and>
                spec_neighbor sim b d = Some (wrapped b d))"
proof -
  have "ghost_message sim b d \<in> set (new_calls (refresh sim) b)" if "spec_active sim b d" for d
    using that spec_active_direction [OF that]
    by (simp add: new_calls_def refresh_out [OF assms])
  then show ?thesis
    using refresh_new_sends [OF assms] refresh_tag_count [OF assms] spec_neighbor_active [OF assms]
    by blast
qed

text \<open>
  The block \<open>(0, 0, 1)\<close> of a periodic domain of \<open>1 \<times> 2 \<times> 2\<close> blocks, faces only:
  along x the block is its own neighbor, along y both messages reach the block \<open>(0, 1, 1)\<close>.
\<close>

theorem refresh_ghost_messages_witness:
  "valid_index (example_block (example_sim True True False False) (0, 0, 1) (1, 2, 2) (8, 8, 8)) \<and>
   filter is_Send (new_calls (refresh (example_sim True True False False))
     (example_block (example_sim True True False False) (0, 0, 1) (1, 2, 2) (8, 8, 8))) =
     [Send (0, 0, 1) 8 (Some 0) (1, 0, 0), Send (0, 1, 1) 8 (Some 0) (0, 1, 0),
      Send (0, 0, 0) 8 (Some 0) (0, 0, 1), Send (0, 0, 0) 8 (Some 0) (0, 0, - 1),
      Send (0, 1, 1) 8 (Some 0) (0, - 1, 0), Send (0, 0, 1) 8 (Some 0) (- 1, 0, 0)]"
proof -
  let ?S = "example_sim True True False False"
  let ?B = "example_block ?S (0, 0, 1) (1, 2, 2) (8, 8, 8)"
  have v: "valid_index ?B"
    by (simp add: valid_index_def every_axis_def example_block_def CommBlock_new_def)
  have e: "map (ghost_message ?S ?B) (filter (spec_active ?S ?B) directions) =
     [Send (0, 0, 1) 8 (Some 0) (1, 0, 0), Send (0, 1, 1) 8 (Some 0) (0, 1, 0),
      Send (0, 0, 0) 8 (Some 0) (0, 0, 1), Send (0, 0, 0) 8 (Some 0) (0, 0, - 1),
      Send (0, 1, 1) 8 (Some 0) (0, - 1, 0), Send (0, 0, 1) 8 (Some 0) (- 1, 0, 0)]"
    by code_simp
  show ?thesis using refresh_ghost_messages [OF v, of ?S] e v by simp
qed

section \<open>The quorum and the block that stands alone\<close>

lemma Sync_done_quorum_one:
  "Sync_done \<lparr>sync_stop = 1, sync_curr = 0\<rparr> = (True, \<lparr>sync_stop = 1, sync_curr = 0\<rparr>)"
  by (simp add: Sync_done_def)

lemma refresh_sync:
  "cb_sync_refresh (refresh sim b) = snd (Sync_done (cb_sync_refresh b))"
  by (simp add: refresh_loop x_refresh_eq prepare_frame arrived_def)

lemma count_refresh_cong:
  "field_size b' = field_size b \<Longrightarrow> cb_index b' = cb_index b \<Longrightarrow> cb_size b' = cb_size b \<Longrightarrow>
     count_refresh sim b' = count_refresh sim b"
  by (simp add: count_refresh_flags face_open_def is_on_boundary_def)

text \<open>
  Claim C8. The quorum is one more than the number of active directions, and it is the
  quorum the constructor gives \<^verbatim>\<open>sync_refresh_\<close>. The one is the block's own message:
  after its ghost messages, \<^verbatim>\<open>refresh\<close> calls \<^verbatim>\<open>x_refresh\<close> on the block itself with
  no bytes and a null buffer, which counts one arrival. A block with no active direction,
  whose counter waits at zero for this quorum, has the quorum 1 and goes on to
  \<^verbatim>\<open>prepare\<close> within its own \<^verbatim>\<open>refresh\<close>. (The block index lies in the domain.)
\<close>

theorem quorum_counts_active_directions:
  assumes "valid_index b"
  shows "count_refresh sim b = 1 + int (length (filter (spec_active sim b) directions)) \<and>
         sync_stop (cb_sync_refresh (CommBlock_new sim (cb_index b) (cb_size b) (field_size b) data))
           = count_refresh sim b \<and>
         refresh sim b =
           x_refresh sim 0 None (0, 0, 0)
             (b\<lparr>cb_out := cb_out b @
                  map (ghost_message sim b) (filter (spec_active sim b) directions)\<rparr>) \<and>
         cb_sync_refresh (refresh sim b) = snd (Sync_done (cb_sync_refresh b)) \<and>
         (filter (spec_active sim b) directions = [] \<and>
          cb_sync_refresh b = \<lparr>sync_stop = count_refresh sim b, sync_curr = 0\<rparr>
            \<longrightarrow> count_refresh sim b = 1 \<and> refresh sim b = prepare sim b)"
proof -
  have c: "count_refresh sim b = 1 + int (length (filter (spec_active sim b) directions))"
    by (rule count_refresh_active)
  have s: "sync_stop (cb_sync_refresh (CommBlock_new sim (cb_index b) (cb_size b) (field_size b) data))
             = count_refresh sim b"
    by (simp add: CommBlock_new_def Let_def) (rule count_refresh_cong; simp)
  have e: "refresh sim b = prepare sim b"
    if "filter (spec_active sim b) directions = []"
      and "cb_sync_refresh b = \<lparr>sync_stop = count_refresh sim b, sync_curr = 0\<rparr>"
  proof -
    have q: "cb_sync_refresh b = \<lparr>sync_stop = 1, sync_curr = 0\<rparr>"
      using that c by simp
    have r: "b\<lparr>cb_sync_refresh := \<lparr>sync_stop = 1, sync_curr = 0\<rparr>\<rparr> = b"
      by (subst q [symmetric]) simp
    have "refresh sim b = prepare sim (b\<lparr>cb_sync_refresh := \<lparr>sync_stop = 1, sync_curr = 0\<rparr>\<rparr>)"
      by (simp add: refresh_sends [OF assms] that(1) x_refresh_eq arrived_def q
          Sync_done_quorum_one)
    then show ?thesis by (simp only: r)
  qed
  show ?thesis
    using c s e refresh_sends [OF assms, of sim] refresh_sync [of sim b] by simp
qed

text \<open>The only block of a domain that is not periodic.\<close>

theorem quorum_counts_active_directions_witness:
  "valid_index (example_block (example_sim False True True True) (0, 0, 0) (1, 1, 1) (8, 8, 8)) \<and>
   filter (spec_active (example_sim False True True True)
     (example_block (example_sim False True True True) (0, 0, 0) (1, 1, 1) (8, 8, 8))) directions = [] \<and>
   cb_sync_refresh (example_block (example_sim False True True True) (0, 0, 0) (1, 1, 1) (8, 8, 8))
     = \<lparr>sync_stop = 1, sync_curr = 0\<rparr> \<and>
   count_refresh (example_sim False True True True)
     (example_block (example_sim False True True True) (0, 0, 0) (1, 1, 1) (8, 8, 8)) = 1 \<and>
   refresh (example_sim False True True True)
     (example_block (example_sim False True True True) (0, 0, 0) (1, 1, 1) (8, 8, 8)) =
   prepare (example_sim False True True True)
     (example_block (example_sim False True True True) (0, 0, 0) (1, 1, 1) (8, 8, 8))"
proof -
  let ?S = "example_sim False True True True"
  let ?B = "example_block ?S (0, 0, 0) (1, 1, 1) (8, 8, 8)"
  have v: "valid_index ?B"
    by (simp add: valid_index_def every_axis_def example_block_def CommBlock_new_def)
  have a: "filter (spec_active ?S ?B) directions = []"
    by code_simp
  have q: "cb_sync_refresh ?B = \<lparr>sync_stop = count_refresh ?S ?B, sync_curr = 0\<rparr>"
    by code_simp
  have s: "cb_sync_refresh ?B = \<lparr>sync_stop = 1, sync_curr = 0\<rparr>"
    by code_simp
  have "count_refresh ?S ?B = 1 \<and> refresh ?S ?B = prepare ?S ?B"
    using quorum_counts_active_directions [OF v, of ?S] a q by blast
  then show ?thesis using v a s by blast
qed

section \<open>A single cell along an axis\<close>

lemma face_open_cells: "face_open sim b a s \<Longrightarrow> 1 < along a (field_size b)"
  by (simp add: face_open_def)

lemma loop_cond_axis:
  assumes "loop_cond sim b d" "\<not> 1 < along a (field_size b)"
  shows "along a d = 0"
proof -
  have "\<not> face_open sim b a s" for s using assms(2) face_open_cells by blast
  then show ?thesis using assms(1)
    by (cases a) (auto simp: loop_cond_def array3_def split: if_splits)
qed

lemma tagged_loop_send: "tagged t (loop_send sim b d data) = (inverse_direction d = t)"
  by (simp add: loop_send_def split_def)

lemma along_inverse: "along a (inverse_direction d) = - along a d"
  by (cases a; cases d) simp_all

lemma refresh_out_loop:
  "new_calls (refresh sim) b =
     map (\<lambda>d. loop_send sim b d (cb_block b)) (filter (loop_cond sim b) (loop_list sim b)) @
     (if fst (Sync_done (cb_sync_refresh b))
      then prepare_calls sim
             (arrived sim 0 None (0, 0, 0)
                (b\<lparr>cb_out := cb_out b @
                     map (\<lambda>d. loop_send sim b d (cb_block b))
                       (filter (loop_cond sim b) (loop_list sim b))\<rparr>))
      else [])"
  by (simp add: new_calls_def refresh_loop x_refresh_out)

lemma tagged_prepare_call: "e \<in> set (prepare_calls sim b) \<Longrightarrow> \<not> tagged t e"
  by (auto simp: prepare_calls_def)

text \<open>
  Claim C6. When a block has one cell along an axis, whether the domain is periodic or not:
  no direction with a nonzero component along the axis is active; no call of
  \<^verbatim>\<open>x_refresh\<close> that \<^verbatim>\<open>refresh\<close> makes on another block has a tag with a nonzero
  component along the axis (the tag is the inverse of the direction); and
  \<^verbatim>\<open>count_refresh_\<close> counts the block itself and active directions with a zero
  component along the axis, nothing else.
\<close>

theorem single_cell_axis_inactive:
  assumes "along a (field_size b) = 1"
  shows "(\<forall>d. along a d \<noteq> 0 \<longrightarrow> \<not> spec_active sim b d) \<and>
         (\<forall>e \<in> set (new_calls (refresh sim) b). \<forall>t. tagged t e \<longrightarrow> along a t = 0) \<and>
         count_refresh sim b =
           1 + int (length (filter (\<lambda>d. along a d = 0 \<and> spec_active sim b d) directions))"
proof -
  have n: "\<not> 1 < along a (field_size b)" using assms by simp
  have i: "\<not> spec_active sim b d" if "along a d \<noteq> 0" for d
    using spec_active_axis [of sim b d a] that n by blast
  have s: "along a t = 0" if "e \<in> set (new_calls (refresh sim) b)" "tagged t e" for e t
  proof -
    have "e \<notin> set (prepare_calls sim b')" for b'
      using that(2) tagged_prepare_call [of e sim b' t] by blast
    then have "e \<in> set (map (\<lambda>d. loop_send sim b d (cb_block b))
                  (filter (loop_cond sim b) (loop_list sim b)))"
      using that(1) unfolding refresh_out_loop by (simp split: if_splits)
    then obtain d where d: "loop_cond sim b d" "e = loop_send sim b d (cb_block b)"
      by auto
    have "t = inverse_direction d" using that(2) d(2) by (simp add: tagged_loop_send)
    then show ?thesis using loop_cond_axis [OF d(1) n] by (simp add: along_inverse)
  qed
  have "filter (spec_active sim b) directions =
          filter (\<lambda>d. along a d = 0 \<and> spec_active sim b d) directions"
    using i by (intro filter_cong refl) blast
  then have c: "count_refresh sim b =
      1 + int (length (filter (\<lambda>d. along a d = 0 \<and> spec_active sim b d) directions))"
    by (simp only: count_refresh_active)
  show ?thesis
  proof (intro conjI allI impI ballI)
    fix d assume "along a d \<noteq> 0" then show "\<not> spec_active sim b d" by (rule i)
  next
    fix e t assume "e \<in> set (new_calls (refresh sim) b)" "tagged t e"
    then show "along a t = 0" by (rule s)
  next
    show "count_refresh sim b =
      1 + int (length (filter (\<lambda>d. along a d = 0 \<and> spec_active sim b d) directions))"
      by (rule c)
  qed
qed

text \<open>
  The middle block of a periodic domain of \<open>3 \<times> 3 \<times> 3\<close> blocks with
  \<open>8 \<times> 8 \<times> 1\<close> cells, all classes refreshed: the quorum is \<open>1 + 4 + 4\<close>.
\<close>

theorem single_cell_axis_inactive_witness:
  "along axis_z (field_size (example_block (example_sim True True True True) (1, 1, 1) (3, 3, 3) (8, 8, 1))) = 1 \<and>
   \<not> spec_active (example_sim True True True True)
     (example_block (example_sim True True True True) (1, 1, 1) (3, 3, 3) (8, 8, 1)) (0, 0, 1) \<and>
   filter (tagged (0, 0, - 1)) (new_calls (refresh (example_sim True True True True))
     (example_block (example_sim True True True True) (1, 1, 1) (3, 3, 3) (8, 8, 1))) = [] \<and>
   count_refresh (example_sim True True True True)
     (example_block (example_sim True True True True) (1, 1, 1) (3, 3, 3) (8, 8, 1)) = 9"
proof -
  let ?S = "example_sim True True True True"
  let ?B = "example_block ?S (1, 1, 1) (3, 3, 3) (8, 8, 1)"
  have h: "along axis_z (field_size ?B) = 1"
    by (simp add: example_block_def CommBlock_new_def)
  note t = single_cell_axis_inactive [OF h, of ?S]
  have e: "filter (\<lambda>d. along axis_z d = 0 \<and> spec_active ?S ?B d) directions =
      [(- 1, - 1, 0), (- 1, 0, 0), (- 1, 1, 0), (0, - 1, 0), (0, 1, 0), (1, - 1, 0), (1, 0, 0),
       (1, 1, 0)]"
    by (simp add: directions_eq spec_active_flags face_open_def is_on_boundary_def side_def
        class_enabled_def example_sim_def example_block_def CommBlock_new_def Let_def)
  have c: "count_refresh ?S ?B = 9"
    by (simp only: t [THEN conjunct2, THEN conjunct2] e) simp
  have a: "\<not> spec_active ?S ?B (0, 0, 1)"
    using t [THEN conjunct1, rule_format, of "(0, 0, 1)"] by simp
  have "\<not> tagged (0, 0, - 1) x" if "x \<in> set (new_calls (refresh ?S) ?B)" for x
    using t [THEN conjunct2, THEN conjunct1, rule_format, OF that, of "(0, 0, - 1)"] by auto
  then have m: "filter (tagged (0, 0, - 1)) (new_calls (refresh ?S) ?B) = []"
    by (simp add: filter_empty_conv)
  show ?thesis using h a m c by (intro conjI)
qed

section \<open>The boundary faces that prepare enforces\<close>

lemma new_calls_prepare: "new_calls (prepare sim) b = prepare_calls sim b"
  by (simp add: new_calls_def prepare_out)

lemma all_faces: "(f, a) \<in> set faces"
  by (cases f; cases a) (simp_all add: faces_def)

text \<open>
  Claim C5, as amended. The calls of \<^verbatim>\<open>enforce\<close> that \<^verbatim>\<open>prepare\<close> makes are, in the
  order x lower, x upper, y lower, y upper, z lower, z upper, one for each face on which the
  block lies on the domain boundary and has more than one cell along the axis of the face,
  and no other; whether the domain is periodic plays no part.
\<close>

theorem prepare_enforces_boundary_faces:
  "filter is_Enforce (new_calls (prepare sim) b) =
     map (\<lambda>(f, a). Enforce f a) (filter (enforced b) faces) \<and>
   (Enforce f a \<in> set (new_calls (prepare sim) b) \<longleftrightarrow>
      is_on_boundary b a f \<and> 1 < along a (field_size b))"
proof -
  have "filter is_Enforce (map (\<lambda>(f, a). Enforce f a) fs) = map (\<lambda>(f, a). Enforce f a) fs" for fs
    by (induction fs) (simp_all add: split_def)
  then have 1: "filter is_Enforce (new_calls (prepare sim) b) =
      map (\<lambda>(f, a). Enforce f a) (filter (enforced b) faces)"
    by (simp add: new_calls_prepare prepare_calls_def)
  have "Enforce f a \<in> set (new_calls (prepare sim) b) \<longleftrightarrow> (f, a) \<in> set faces \<and> enforced b (f, a)"
    by (auto simp: new_calls_prepare prepare_calls_def)
  then have 2: "Enforce f a \<in> set (new_calls (prepare sim) b) \<longleftrightarrow>
      is_on_boundary b a f \<and> 1 < along a (field_size b)"
    using all_faces [of f a] by (auto simp: enforced_def)
  show ?thesis using 1 2 by (rule conjI)
qed

lemma double_round_ten: "double_round 10 = 10"
  by code_simp

text \<open>
  A block of a domain that is not periodic, on the lower boundary along x and on the upper
  boundary along z, with one cell along z: the face along x is enforced, the face along z
  is not.
\<close>

theorem prepare_enforces_boundary_faces_witness:
  "new_calls (prepare (example_sim False True False False))
     (example_block (example_sim False True False False) (0, 1, 2) (3, 3, 3) (8, 8, 1)) =
     [Enforce face_lower axis_x, Contribute (1 / 2, 0)] \<and>
   is_on_boundary (example_block (example_sim False True False False) (0, 1, 2) (3, 3, 3) (8, 8, 1))
     axis_x face_lower \<and>
   is_on_boundary (example_block (example_sim False True False False) (0, 1, 2) (3, 3, 3) (8, 8, 1))
     axis_z face_upper"
proof -
  let ?S = "example_sim False True False False"
  let ?B = "example_block ?S (0, 1, 2) (3, 3, 3) (8, 8, 1)"
  have e: "filter (enforced ?B) faces = [(face_lower, axis_x)]"
    by (simp add: faces_def enforced_def is_on_boundary_def example_block_def CommBlock_new_def)
  have b: "is_on_boundary ?B axis_x face_lower" "is_on_boundary ?B axis_z face_upper"
    by (simp_all add: is_on_boundary_def example_block_def CommBlock_new_def)
  have c: "new_calls (prepare ?S) ?B = prepare_calls ?S ?B" by (rule new_calls_prepare)
  have "filter is_Enforce (new_calls (prepare ?S) ?B) = [Enforce face_lower axis_x]"
    using prepare_enforces_boundary_faces [of ?S ?B, THEN conjunct1] e by simp
  moreover have "min_reduce ?S (update_boundary ?S ?B) = (1 / 2, 0)"
    by (simp add: min_reduce_def dt_block_def stop_block_def MIN2_def update_boundary_frame
        example_sim_def example_block_def CommBlock_new_def double_round_ten)
  ultimately have "new_calls (prepare ?S) ?B = [Enforce face_lower axis_x, Contribute (1 / 2, 0)]"
    by (simp add: c prepare_calls_def e)
  then show ?thesis using b by simp
qed

text \<open>
  Claim C5 as it was stated has \<^verbatim>\<open>enforce\<close> called on the faces of a domain that is not
  periodic only. \<^verbatim>\<open>update_boundary_\<close> never asks whether the domain is periodic: on a
  block on the lower boundary along x of a periodic domain it calls \<^verbatim>\<open>enforce\<close> for
  that face.
\<close>

theorem enforce_periodic_counterexample:
  "boundary_is_periodic (example_sim True True False False) \<and>
   is_on_boundary (example_block (example_sim True True False False) (0, 1, 1) (3, 3, 3) (8, 8, 8))
     axis_x face_lower \<and>
   new_calls (prepare (example_sim True True False False))
     (example_block (example_sim True True False False) (0, 1, 1) (3, 3, 3) (8, 8, 8)) =
     [Enforce face_lower axis_x, Contribute (1 / 2, 0)]"
proof -
  let ?S = "example_sim True True False False"
  let ?B = "example_block ?S (0, 1, 1) (3, 3, 3) (8, 8, 8)"
  have e: "filter (enforced ?B) faces = [(face_lower, axis_x)]"
    by (simp add: faces_def enforced_def is_on_boundary_def example_block_def CommBlock_new_def)
  have "min_reduce ?S (update_boundary ?S ?B) = (1 / 2, 0)"
    by (simp add: min_reduce_def dt_block_def stop_block_def MIN2_def update_boundary_frame
        example_sim_def example_block_def CommBlock_new_def double_round_ten)
  then have "new_calls (prepare ?S) ?B = [Enforce face_lower axis_x, Contribute (1 / 2, 0)]"
    by (simp add: new_calls_prepare prepare_calls_def e)
  moreover have "boundary_is_periodic ?S" by (simp add: example_sim_def)
  moreover have "is_on_boundary ?B axis_x face_lower"
    by (simp add: is_on_boundary_def example_block_def CommBlock_new_def)
  ultimately show ?thesis by simp
qed

section \<open>The empty message\<close>

lemma is_Contribute_enforces:
  "filter is_Contribute (map (\<lambda>(f, a). Enforce f a) fs) = []"
  by (induction fs) (simp_all add: split_def)

lemma enforced_cong:
  "field_size b' = field_size b \<Longrightarrow> cb_index b' = cb_index b \<Longrightarrow> cb_size b' = cb_size b \<Longrightarrow>
     enforced b' = enforced b"
  by (rule ext) (simp add: enforced_def is_on_boundary_def split: prod.splits face_type.splits)

lemma update_boundary_block_cong:
  assumes "field_size b' = field_size b" "cb_index b' = cb_index b" "cb_size b' = cb_size b"
    "cb_block b' = cb_block b"
  shows "cb_block (update_boundary sim b') = cb_block (update_boundary sim b)"
  by (simp add: update_boundary_eq enforced_cong [OF assms(1-3)] assms(4))

lemma is_Store_prepare_calls: "filter is_Store (prepare_calls sim b) = []"
  by (simp add: prepare_calls_def filter_empty_conv split_def)

text \<open>
  Claim C10. \<^verbatim>\<open>x_refresh\<close> with no bytes, whatever the buffer and the face, counts one
  arrival in \<^verbatim>\<open>sync_refresh_\<close> and, when that reaches the quorum, goes on to
  \<^verbatim>\<open>prepare\<close>; it stores nothing. The field data afterwards are those of before when the
  quorum is not reached, and when it is reached they are what the boundary update of
  \<^verbatim>\<open>prepare\<close> makes of those of before.
\<close>

theorem x_refresh_empty_message:
  "x_refresh sim 0 buffer f b =
     (if fst (Sync_done (cb_sync_refresh b))
      then prepare sim (b\<lparr>cb_sync_refresh := snd (Sync_done (cb_sync_refresh b))\<rparr>)
      else b\<lparr>cb_sync_refresh := snd (Sync_done (cb_sync_refresh b))\<rparr>) \<and>
   filter is_Store (new_calls (x_refresh sim 0 buffer f) b) = [] \<and>
   cb_block (x_refresh sim 0 buffer f b) =
     (if fst (Sync_done (cb_sync_refresh b)) then cb_block (update_boundary sim b)
      else cb_block b)"
proof -
  have 1: "x_refresh sim 0 buffer f b =
     (if fst (Sync_done (cb_sync_refresh b))
      then prepare sim (b\<lparr>cb_sync_refresh := snd (Sync_done (cb_sync_refresh b))\<rparr>)
      else b\<lparr>cb_sync_refresh := snd (Sync_done (cb_sync_refresh b))\<rparr>)"
    by (simp add: x_refresh_eq arrived_def)
  have 2: "filter is_Store (new_calls (x_refresh sim 0 buffer f) b) = []"
    by (simp add: new_calls_def x_refresh_out is_Store_prepare_calls)
  have 3: "cb_block (x_refresh sim 0 buffer f b) =
     (if fst (Sync_done (cb_sync_refresh b)) then cb_block (update_boundary sim b)
      else cb_block b)"
    unfolding 1
    using update_boundary_block_cong
      [of "b\<lparr>cb_sync_refresh := snd (Sync_done (cb_sync_refresh b))\<rparr>" b sim]
    by (simp add: prepare_frame)
  show ?thesis using 1 2 3 by (intro conjI)
qed

text \<open>The first of seven arrivals at a block of a periodic domain changes the counter only.\<close>

theorem x_refresh_empty_message_witness:
  "x_refresh (example_sim True True False False) 0 None (0, 0, 0)
     (example_block (example_sim True True False False) (1, 1, 1) (3, 3, 3) (8, 8, 8)) =
   (example_block (example_sim True True False False) (1, 1, 1) (3, 3, 3) (8, 8, 8))
     \<lparr>cb_sync_refresh := \<lparr>sync_stop = 7, sync_curr = 1\<rparr>\<rparr>"
proof -
  let ?S = "example_sim True True False False"
  let ?B = "example_block ?S (1, 1, 1) (3, 3, 3) (8, 8, 8)"
  have q: "cb_sync_refresh ?B = \<lparr>sync_stop = 7, sync_curr = 0\<rparr>"
    by (simp add: example_block_def CommBlock_new_def example_sim_def count_refresh_def incr_def
        is_on_boundary_def)
  show ?thesis
    using x_refresh_empty_message [of ?S None "(0, 0, 0)" ?B, THEN conjunct1]
    by (simp add: q Sync_done_def)
qed

section \<open>The order of the calls within a cycle\<close>

lemma fold_methods:
  "fold (\<lambda>(index_method, method) b.
            b\<lparr>cb_block := method (cb_block b), cb_out := cb_out b @ [Compute_block index_method]\<rparr>)
     (enumerate k ms) b =
   b\<lparr>cb_block := fold (\<lambda>method. method) ms (cb_block b),
     cb_out := cb_out b @ map Compute_block [k..<k + length ms]\<rparr>"
proof (induction ms arbitrary: k b)
  case Nil
  show ?case by simp
next
  case (Cons m ms)
  have "[k..<k + length (m # ms)] = k # [Suc k..<Suc k + length ms]"
    by (simp add: upt_rec)
  then show ?case by (simp add: Cons.IH)
qed

lemma compute_eq: "compute sim b = refresh sim (computed sim b)"
  unfolding compute_def Let_def fold_methods
  by (rule arg_cong [where f = "refresh sim"]) (cases b, simp add: computed_def)

lemma no_send_order:
  "\<forall>e\<in>set t. \<not> is_Send e \<Longrightarrow> sends_precede_reduction c t"
  by (induction c t rule: sends_precede_reduction.induct) simp_all

lemma order_append:
  "sends_precede_reduction c t1 \<Longrightarrow> (\<And>c'. sends_precede_reduction c' t2) \<Longrightarrow>
     sends_precede_reduction c (t1 @ t2)"
  by (induction c t1 rule: sends_precede_reduction.induct) auto

lemma sends_order:
  "\<forall>e\<in>set t. is_Send e \<Longrightarrow> sends_precede_reduction False (t @ prepare_calls sim b)"
proof (induction t)
  case Nil
  show ?case by (simp add: no_send_order prepare_calls_def split_def)
next
  case (Cons e t)
  then show ?case by (cases e) simp_all
qed

lemma sends_order_only:
  "\<forall>e\<in>set t. is_Send e \<Longrightarrow> sends_precede_reduction False t"
proof (induction t)
  case Nil
  show ?case by simp
next
  case (Cons e t)
  then show ?case by (cases e) simp_all
qed

lemma is_Send_loop_send: "is_Send (loop_send sim b d data)"
  by (simp add: loop_send_def split_def)

lemma new_calls_eqI: "cb_out (f b) = cb_out b @ t \<Longrightarrow> new_calls f b = t"
  by (simp add: new_calls_def)

lemma refresh_calls:
  "\<exists>t. cb_out (refresh sim b) = cb_out b @ t \<and> sends_precede_reduction False t"
proof -
  let ?s = "map (\<lambda>d. loop_send sim b d (cb_block b)) (filter (loop_cond sim b) (loop_list sim b))"
  let ?b = "arrived sim 0 None (0, 0, 0) (b\<lparr>cb_out := cb_out b @ ?s\<rparr>)"
  let ?t = "?s @ (if fst (Sync_done (cb_sync_refresh b)) then prepare_calls sim ?b else [])"
  have "cb_out (refresh sim b) = cb_out b @ ?t"
    by (simp add: refresh_loop x_refresh_out)
  moreover have "sends_precede_reduction False ?t"
    by (simp add: sends_order sends_order_only is_Send_loop_send)
  ultimately show ?thesis by blast
qed

lemma cb_out_computed:
  "cb_out (computed sim b) =
     cb_out b @ map Compute_block [0..<length (problem_methods sim)] @ [Set_cycle (cb_cycle b + 1)]"
  by (simp add: computed_def)

lemma new_calls_computed:
  "new_calls (computed sim) b =
     map Compute_block [0..<length (problem_methods sim)] @ [Set_cycle (cb_cycle b + 1)]"
  by (rule new_calls_eqI) (rule cb_out_computed)

lemma new_calls_x_refresh:
  "new_calls (x_refresh sim n buffer f) b =
     (if n \<noteq> 0 then [Store n buffer f] else []) @
     (if fst (Sync_done (cb_sync_refresh b)) then prepare_calls sim (arrived sim n buffer f b)
      else [])"
  by (rule new_calls_eqI) (simp add: x_refresh_out)

lemma methods_then_order:
  "sends_precede_reduction False t \<Longrightarrow>
     sends_precede_reduction c (map Compute_block ks @ Set_cycle k # t)"
  by (induction ks) simp_all

lemma invoke_calls:
  "\<exists>t. cb_out (invoke sim e b) = cb_out b @ t \<and> (\<forall>c. sends_precede_reduction c t)"
proof (cases e)
  case (P_compute cycle time dt)
  obtain t where t: "cb_out (refresh sim (computed sim b)) = cb_out (computed sim b) @ t"
    "sends_precede_reduction False t"
    using refresh_calls [of sim "computed sim b"] by blast
  let ?t = "map Compute_block [0..<length (problem_methods sim)] @ Set_cycle (cb_cycle b + 1) # t"
  have "cb_out (invoke sim e b) = cb_out b @ ?t"
    by (simp add: P_compute p_compute_def compute_eq t(1) cb_out_computed)
  moreover have "\<forall>c. sends_precede_reduction c ?t"
    using methods_then_order [OF t(2)] by blast
  ultimately show ?thesis by blast
next
  case (X_refresh n buffer f)
  let ?t = "(if n \<noteq> 0 then [Store n buffer f] else []) @
     (if fst (Sync_done (cb_sync_refresh b)) then prepare_calls sim (arrived sim n buffer f b)
      else [])"
  have "cb_out (invoke sim e b) = cb_out b @ ?t"
    by (simp add: X_refresh x_refresh_out)
  moreover have "sends_precede_reduction c ?t" for c
    by (rule no_send_order) (auto simp: prepare_calls_def)
  ultimately show ?thesis by blast
next
  case (P_output r)
  let ?t = "[Update_state (cb_cycle b) (cb_time b) (fst r) (stop_forest r), Simulation_p_output]"
  have "cb_out (invoke sim e b) = cb_out b @ ?t"
    by (simp add: P_output p_output_def Let_def)
  moreover have "sends_precede_reduction c ?t" for c by simp
  ultimately show ?thesis by blast
qed

lemma fold_invoke_calls:
  "\<exists>t. cb_out (fold (invoke sim) es b) = cb_out b @ t \<and> (\<forall>c. sends_precede_reduction c t)"
proof (induction es arbitrary: b)
  case Nil
  show ?case by (intro exI [of _ "[]"]) simp
next
  case (Cons e es)
  obtain t1 where t1: "cb_out (invoke sim e b) = cb_out b @ t1"
    "\<And>c. sends_precede_reduction c t1"
    using invoke_calls [of sim e b] by blast
  obtain t2 where t2: "cb_out (fold (invoke sim) es (invoke sim e b)) = cb_out (invoke sim e b) @ t2"
    "\<And>c. sends_precede_reduction c t2"
    using Cons.IH [of "invoke sim e b"] by blast
  have "cb_out (fold (invoke sim) (e # es) b) = cb_out b @ (t1 @ t2)"
    by (simp add: t1(1) t2(1))
  moreover have "\<forall>c. sends_precede_reduction c (t1 @ t2)"
    using t1(2) t2(2) by (simp add: order_append)
  ultimately show ?case by blast
qed

lemma run_order: "sends_precede_reduction False (new_calls (run sim es) b)"
proof -
  obtain t1 where t1: "cb_out (refresh sim b) = cb_out b @ t1"
    "sends_precede_reduction False t1"
    using refresh_calls [of sim b] by blast
  obtain t2 where t2: "cb_out (fold (invoke sim) es (refresh sim b)) = cb_out (refresh sim b) @ t2"
    "\<And>c. sends_precede_reduction c t2"
    using fold_invoke_calls [of sim es "refresh sim b"] by blast
  have "cb_out (run sim es b) = cb_out b @ (t1 @ t2)"
    by (simp add: run_def t1(1) t2(1))
  then have "new_calls (run sim es) b = t1 @ t2" by (rule new_calls_eqI)
  then show ?thesis using t1(2) t2(2) by (simp add: order_append)
qed

section \<open>The cycles of a driven block\<close>

lemma begins_after_append:
  "begins_after k u j (t1 @ t2) \<longleftrightarrow>
     begins_after k u j t1 \<and>
     begins_after (k + length (filter is_Contribute t1)) (u + length (filter is_Update_state t1))
       (j + length (filter is_Set_cycle t1)) t2"
  by (induction k u j t1 rule: begins_after.induct) auto

lemma begins_after_quiet:
  "\<forall>e\<in>set t. \<not> is_Compute_block e \<and> \<not> is_Set_cycle e \<Longrightarrow> begins_after k u j t"
  by (induction k u j t rule: begins_after.induct) auto

lemma begins_after_quorum:
  "begins_after k u j t \<Longrightarrow> compute_after_quorum k j t"
  by (induction k u j t rule: begins_after.induct) auto

lemma begins_after_methods:
  "j < k \<Longrightarrow> j < u \<Longrightarrow> begins_after k u (Suc j) t \<Longrightarrow>
     begins_after k u j (map Compute_block ks @ Set_cycle n # t)"
  by (induction ks) simp_all

lemma prepare_calls_kinds:
  "e \<in> set (prepare_calls sim b) \<Longrightarrow> is_Enforce e \<or> is_Contribute e"
  by (auto simp: prepare_calls_def)

lemma prepare_calls_contribute:
  "length (filter is_Contribute (prepare_calls sim b)) = 1"
  by (simp add: prepare_calls_def is_Contribute_enforces)

text \<open>
  The calls of \<^verbatim>\<open>x_refresh\<close> and of \<^verbatim>\<open>refresh\<close>: ghost messages, a store, and the
  calls of \<^verbatim>\<open>prepare\<close> when the arrival counter reaches the quorum.
\<close>

lemma x_refresh_trace:
  "\<exists>t. cb_out (x_refresh sim n buffer f b) = cb_out b @ t \<and>
       (\<forall>e\<in>set t. is_Send e \<or> is_Store e \<or> is_Enforce e \<or> is_Contribute e) \<and>
       length (filter is_Contribute t) = (if fst (Sync_done (cb_sync_refresh b)) then 1 else 0)"
proof -
  let ?t = "(if n \<noteq> 0 then [Store n buffer f] else []) @
     (if fst (Sync_done (cb_sync_refresh b)) then prepare_calls sim (arrived sim n buffer f b)
      else [])"
  have "cb_out (x_refresh sim n buffer f b) = cb_out b @ ?t"
    by (simp add: x_refresh_out)
  moreover have "\<forall>e\<in>set ?t. is_Send e \<or> is_Store e \<or> is_Enforce e \<or> is_Contribute e"
    using prepare_calls_kinds [of _ sim "arrived sim n buffer f b"] by auto
  moreover have "length (filter is_Contribute ?t) =
      (if fst (Sync_done (cb_sync_refresh b)) then 1 else 0)"
    by (simp add: prepare_calls_contribute)
  ultimately show ?thesis by blast
qed

lemma refresh_trace:
  "\<exists>t. cb_out (refresh sim b) = cb_out b @ t \<and>
       (\<forall>e\<in>set t. is_Send e \<or> is_Store e \<or> is_Enforce e \<or> is_Contribute e) \<and>
       length (filter is_Contribute t) = (if fst (Sync_done (cb_sync_refresh b)) then 1 else 0)"
proof -
  let ?s = "map (\<lambda>d. loop_send sim b d (cb_block b)) (filter (loop_cond sim b) (loop_list sim b))"
  let ?b = "b\<lparr>cb_out := cb_out b @ ?s\<rparr>"
  obtain t where t: "cb_out (x_refresh sim 0 None (0, 0, 0) ?b) = cb_out ?b @ t"
    "\<forall>e\<in>set t. is_Send e \<or> is_Store e \<or> is_Enforce e \<or> is_Contribute e"
    "length (filter is_Contribute t) = (if fst (Sync_done (cb_sync_refresh ?b)) then 1 else 0)"
    using x_refresh_trace [of sim 0 None "(0, 0, 0)" ?b] by blast
  have s: "\<forall>e\<in>set ?s. is_Send e" "filter is_Contribute ?s = []"
    by (simp_all add: is_Send_loop_send filter_empty_conv loop_send_def split_def)
  have "cb_out (refresh sim b) = cb_out b @ (?s @ t)"
    by (simp add: refresh_loop t(1))
  moreover have "\<forall>e\<in>set (?s @ t). is_Send e \<or> is_Store e \<or> is_Enforce e \<or> is_Contribute e"
    using s(1) t(2) by auto
  moreover have "length (filter is_Contribute (?s @ t)) =
      (if fst (Sync_done (cb_sync_refresh b)) then 1 else 0)"
    using t(3) by (simp add: s(2))
  ultimately show ?thesis by blast
qed

lemma exchange_counts:
  assumes "\<forall>e\<in>set t. is_Send e \<or> is_Store e \<or> is_Enforce e \<or> is_Contribute e"
  shows "filter is_Set_cycle t = []" "filter is_Update_state t = []"
    "filter is_Simulation_p_output t = []" "filter is_Compute_block t = []"
proof -
  have "\<not> is_Set_cycle e \<and> \<not> is_Update_state e \<and> \<not> is_Simulation_p_output e \<and>
      \<not> is_Compute_block e" if "e \<in> set t" for e
    using assms that by (cases e) auto
  then show "filter is_Set_cycle t = []" "filter is_Update_state t = []"
    "filter is_Simulation_p_output t = []" "filter is_Compute_block t = []"
    by (simp_all add: filter_empty_conv)
qed

lemma exchange_quiet:
  assumes "\<forall>e\<in>set t. is_Send e \<or> is_Store e \<or> is_Enforce e \<or> is_Contribute e"
  shows "\<forall>e\<in>set t. \<not> is_Compute_block e \<and> \<not> is_Set_cycle e"
  using exchange_counts(1,4) [OF assms] by (simp add: filter_empty_conv)

lemma in_step_exchange:
  assumes "in_step t0"
    and "\<forall>e\<in>set t. is_Send e \<or> is_Store e \<or> is_Enforce e \<or> is_Contribute e"
  shows "in_step (t0 @ t)"
  using assms(1) begins_after_quiet [OF exchange_quiet [OF assms(2)]]
  by (simp add: in_step_def begins_after_append exchange_counts [OF assms(2)])

lemma in_step_p_output:
  assumes "in_step t0"
    and "length (filter is_Update_state t0) < length (filter is_Contribute t0)"
  shows "in_step (t0 @ [Update_state cycle time dt stop, Simulation_p_output])"
  using assms by (simp add: in_step_def begins_after_append)

lemma in_step_compute:
  assumes "in_step t0"
    and "length (filter is_Set_cycle t0) < length (filter is_Simulation_p_output t0)"
    and "\<forall>e\<in>set t. is_Send e \<or> is_Store e \<or> is_Enforce e \<or> is_Contribute e"
  shows "in_step (t0 @ map Compute_block ks @ Set_cycle n # t)"
proof -
  have m: "filter is_Set_cycle (map Compute_block ks) = []"
    "filter is_Update_state (map Compute_block ks) = []"
    "filter is_Simulation_p_output (map Compute_block ks) = []"
    "filter is_Contribute (map Compute_block ks) = []"
    by (induction ks) simp_all
  have "begins_after (length (filter is_Contribute t0)) (length (filter is_Update_state t0))
      (length (filter is_Set_cycle t0)) (map Compute_block ks @ Set_cycle n # t)"
    using assms(1,2) begins_after_quiet [OF exchange_quiet [OF assms(3)]]
    by (intro begins_after_methods) (simp_all add: in_step_def)
  then show ?thesis
    using assms(1,2)
    by (simp add: in_step_def begins_after_append exchange_counts [OF assms(3)] m)
qed

lemma compute_trace:
  "\<exists>t. cb_out (compute sim b) =
         cb_out b @ map Compute_block [0..<length (problem_methods sim)] @
           Set_cycle (cb_cycle b + 1) # t \<and>
       (\<forall>e\<in>set t. is_Send e \<or> is_Store e \<or> is_Enforce e \<or> is_Contribute e) \<and>
       length (filter is_Contribute t) = (if fst (Sync_done (cb_sync_refresh b)) then 1 else 0)"
proof -
  obtain t where t: "cb_out (refresh sim (computed sim b)) = cb_out (computed sim b) @ t"
    "\<forall>e\<in>set t. is_Send e \<or> is_Store e \<or> is_Enforce e \<or> is_Contribute e"
    "length (filter is_Contribute t) =
       (if fst (Sync_done (cb_sync_refresh (computed sim b))) then 1 else 0)"
    using refresh_trace [of sim "computed sim b"] by blast
  have "cb_sync_refresh (computed sim b) = cb_sync_refresh b" by (simp add: computed_def)
  then show ?thesis using t by (intro exI [of _ t]) (simp add: compute_eq cb_out_computed)
qed

lemma driven_in_step:
  "driven sim es b \<Longrightarrow> in_step (cb_out b) \<Longrightarrow> in_step (cb_out (fold (invoke sim) es b))"
proof (induction es arbitrary: b)
  case Nil
  then show ?case by simp
next
  case (Cons e es)
  have "driven sim es (invoke sim e b) \<and> in_step (cb_out (invoke sim e b))"
  proof (cases e)
    case (P_compute cycle time dt)
    obtain t where t: "cb_out (compute sim b) =
          cb_out b @ map Compute_block [0..<length (problem_methods sim)] @
            Set_cycle (cb_cycle b + 1) # t"
      "\<forall>e\<in>set t. is_Send e \<or> is_Store e \<or> is_Enforce e \<or> is_Contribute e"
      using compute_trace [of sim b] by blast
    have "in_step (cb_out (compute sim b))"
      unfolding t(1) using Cons.prems t(2) by (intro in_step_compute) (simp_all add: P_compute)
    then show ?thesis using Cons.prems(1) by (simp add: P_compute p_compute_def)
  next
    case (X_refresh n buffer f)
    obtain t where t: "cb_out (x_refresh sim n buffer f b) = cb_out b @ t"
      "\<forall>e\<in>set t. is_Send e \<or> is_Store e \<or> is_Enforce e \<or> is_Contribute e"
      using x_refresh_trace [of sim n buffer f b] by blast
    have "in_step (cb_out (x_refresh sim n buffer f b))"
      unfolding t(1) using Cons.prems(2) t(2) by (rule in_step_exchange)
    then show ?thesis using Cons.prems(1) by (simp add: X_refresh)
  next
    case (P_output r)
    have "cb_out (p_output r b) =
        cb_out b @ [Update_state (cb_cycle b) (cb_time b) (fst r) (stop_forest r),
                    Simulation_p_output]"
      by (simp add: p_output_def Let_def)
    moreover have "in_step (cb_out b @
        [Update_state (cb_cycle b) (cb_time b) (fst r) (stop_forest r), Simulation_p_output])"
      using Cons.prems by (intro in_step_p_output) (simp_all add: P_output)
    ultimately show ?thesis using Cons.prems(1) by (simp add: P_output)
  qed
  then show ?case using Cons.IH [of "invoke sim e b"] by simp
qed

lemma driven_run:
  assumes "cb_out b = []" and "driven sim es (refresh sim b)"
  shows "in_step (new_calls (run sim es) b)"
proof -
  obtain t where t: "cb_out (refresh sim b) = cb_out b @ t"
    "\<forall>e\<in>set t. is_Send e \<or> is_Store e \<or> is_Enforce e \<or> is_Contribute e"
    using refresh_trace [of sim b] by blast
  have "in_step ([] @ t)"
    using t(2) by (intro in_step_exchange) (simp_all add: in_step_def)
  then have "in_step (cb_out (refresh sim b))" by (simp add: t(1) assms(1))
  then have "in_step (cb_out (run sim es b))"
    unfolding run_def using assms(2) by (intro driven_in_step)
  then show ?thesis by (simp add: new_calls_def assms(1))
qed

lemma contributes_at_quorum:
  "length (filter is_Contribute (new_calls (invoke sim e) b)) =
     (if \<not> is_P_output e \<and> fst (Sync_done (cb_sync_refresh b)) then 1 else 0)"
proof (cases e)
  case (P_compute cycle time dt)
  obtain t where t: "cb_out (compute sim b) =
        cb_out b @ map Compute_block [0..<length (problem_methods sim)] @
          Set_cycle (cb_cycle b + 1) # t"
    "length (filter is_Contribute t) = (if fst (Sync_done (cb_sync_refresh b)) then 1 else 0)"
    using compute_trace [of sim b] by blast
  have m: "filter is_Contribute (map Compute_block ks) = []" for ks :: "nat list"
    by (induction ks) simp_all
  show ?thesis
    by (simp add: P_compute p_compute_def new_calls_def t m)
next
  case (X_refresh n buffer f)
  obtain t where t: "cb_out (x_refresh sim n buffer f b) = cb_out b @ t"
    "length (filter is_Contribute t) = (if fst (Sync_done (cb_sync_refresh b)) then 1 else 0)"
    using x_refresh_trace [of sim n buffer f b] by blast
  show ?thesis by (simp add: X_refresh new_calls_def t)
next
  case (P_output r)
  show ?thesis by (simp add: P_output new_calls_def p_output_def Let_def)
qed

text \<open>
  Claim C2. A block whose record of calls is empty, as its constructor leaves it, is run:
  \<^verbatim>\<open>refresh\<close> is called once and then entry methods are invoked, \<^verbatim>\<open>p_output\<close> only in
  answer to a contribution of the block and \<^verbatim>\<open>p_compute\<close> only in answer to a check-in of
  the block. Then before the block invokes a Method or raises its cycle counter for the
  \<open>j + 1\<close>st time, it has received \<open>j + 1\<close> results of the reduction and has reached its
  ghost quorum \<open>j + 1\<close> times. The quorums are counted by the contributions: whatever the
  state of a block, an entry method contributes once when it is an arrival that brings the
  counter of \<^verbatim>\<open>sync_refresh_\<close> to the quorum (a ghost message, or the empty message of the
  block to itself at the end of \<^verbatim>\<open>compute\<close>), and not otherwise.
\<close>

theorem cycle_begins_after_result_and_quorum:
  assumes "cb_out b = []" and "driven sim es (refresh sim b)"
  shows "begins_after 0 0 0 (new_calls (run sim es) b) \<and>
         length (filter is_Contribute (new_calls (invoke sim e) b')) =
           (if \<not> is_P_output e \<and> fst (Sync_done (cb_sync_refresh b')) then 1 else 0)"
  using driven_run [OF assms] contributes_at_quorum [of sim e b']
  by (simp add: in_step_def)

text \<open>
  Two cycles of the block \<open>(0, 0, 0)\<close> of a domain of \<open>2 \<times> 1 \<times> 1\<close> blocks that is not
  periodic, with the quorum 2: its own empty message and the ghost message of its one
  neighbor, then the result of the reduction, then \<^verbatim>\<open>p_compute\<close>, and the same once more.
\<close>

theorem cycle_begins_after_result_and_quorum_witness:
  "cb_out (example_block (example_sim False True False False) (0, 0, 0) (2, 1, 1) (8, 8, 8)) = [] \<and>
   driven (example_sim False True False False)
     [X_refresh 8 (Some 5) (1, 0, 0), P_output (1 / 2, 0), P_compute 0 0 (1 / 2),
      X_refresh 8 (Some 7) (1, 0, 0), P_output (1 / 2, 0), P_compute 1 (1 / 2) (1 / 2)]
     (refresh (example_sim False True False False)
        (example_block (example_sim False True False False) (0, 0, 0) (2, 1, 1) (8, 8, 8))) \<and>
   begins_after 0 0 0
     (new_calls (run (example_sim False True False False)
        [X_refresh 8 (Some 5) (1, 0, 0), P_output (1 / 2, 0), P_compute 0 0 (1 / 2),
         X_refresh 8 (Some 7) (1, 0, 0), P_output (1 / 2, 0), P_compute 1 (1 / 2) (1 / 2)])
        (example_block (example_sim False True False False) (0, 0, 0) (2, 1, 1) (8, 8, 8))) \<and>
   length (filter is_Set_cycle
     (new_calls (run (example_sim False True False False)
        [X_refresh 8 (Some 5) (1, 0, 0), P_output (1 / 2, 0), P_compute 0 0 (1 / 2),
         X_refresh 8 (Some 7) (1, 0, 0), P_output (1 / 2, 0), P_compute 1 (1 / 2) (1 / 2)])
        (example_block (example_sim False True False False) (0, 0, 0) (2, 1, 1) (8, 8, 8)))) = 2"
proof -
  let ?S = "example_sim False True False False"
  let ?B = "example_block ?S (0, 0, 0) (2, 1, 1) (8, 8, 8)"
  let ?es = "[X_refresh 8 (Some 5) (1, 0, 0), P_output (1 / 2, 0), P_compute 0 0 (1 / 2),
      X_refresh 8 (Some 7) (1, 0, 0), P_output (1 / 2, 0), P_compute 1 (1 / 2) (1 / 2)]"
  have e: "cb_out ?B = []" by (simp add: example_block_def CommBlock_new_def)
  have d: "driven ?S ?es (refresh ?S ?B)" by code_simp
  have n: "length (filter is_Set_cycle (new_calls (run ?S ?es) ?B)) = 2" by code_simp
  show ?thesis
    using cycle_begins_after_result_and_quorum [OF e d, THEN conjunct1] e d n by simp
qed

section \<open>Ghost messages, prepare and compute\<close>

text \<open>
  Claim C4, as amended. In every run of a block, within each cycle (from one raising of the
  cycle counter to the next) the ghost messages are sent before the block contributes to the
  reduction and is handed its result, not after: \<^verbatim>\<open>compute\<close> invokes the Methods,
  raises the cycle counter and calls \<^verbatim>\<open>refresh\<close> at once, which sends the ghost
  messages of the new cycle. Boundary enforcement, timestep evaluation and the contribution
  (\<^verbatim>\<open>prepare\<close>) follow in the call of \<^verbatim>\<open>x_refresh\<close> that reaches the ghost
  quorum, which stores its buffer first and invokes no Method. The second half of the claim
  stays: in a run in which \<^verbatim>\<open>p_output\<close>
  answers a contribution of the block and \<^verbatim>\<open>p_compute\<close> a check-in of the block, the
  block invokes a Method and raises its cycle counter for the \<open>j + 1\<close>st time only after it
  has reached its ghost quorum, and so contributed, \<open>j + 1\<close> times.
\<close>

theorem ghost_messages_precede_prepare:
  "sends_precede_reduction False (new_calls (run sim es) b) \<and>
   (cb_out b = [] \<and> driven sim es (refresh sim b) \<longrightarrow>
      compute_after_quorum 0 0 (new_calls (run sim es) b)) \<and>
   compute sim b = refresh sim (computed sim b) \<and>
   new_calls (computed sim) b =
     map Compute_block [0..<length (problem_methods sim)] @ [Set_cycle (cb_cycle b + 1)] \<and>
   new_calls (x_refresh sim n buffer f) b =
     (if n \<noteq> 0 then [Store n buffer f] else []) @
     (if fst (Sync_done (cb_sync_refresh b)) then prepare_calls sim (arrived sim n buffer f b)
      else [])"
proof -
  have "compute_after_quorum 0 0 (new_calls (run sim es) b)"
    if "cb_out b = []" "driven sim es (refresh sim b)"
    using driven_run [OF that] begins_after_quorum [of 0 0 0 "new_calls (run sim es) b"]
    by (simp add: in_step_def)
  then show ?thesis
    using run_order [of sim es b] compute_eq [of sim b] new_calls_computed [of sim b]
      new_calls_x_refresh [of sim n buffer f b]
    by (intro conjI impI) simp_all
qed

text \<open>
  A run of the block \<open>(0, 0, 0)\<close> of a domain of \<open>2 \<times> 1 \<times> 1\<close> blocks that is not periodic,
  with the quorum 2: after its first \<^verbatim>\<open>refresh\<close> the ghost message of its one neighbor
  arrives, then the result of the reduction, then \<^verbatim>\<open>p_compute\<close>.
\<close>

theorem ghost_messages_precede_prepare_witness:
  "cb_out (example_block (example_sim False True False False) (0, 0, 0) (2, 1, 1) (8, 8, 8)) = [] \<and>
   driven (example_sim False True False False)
     [X_refresh 8 (Some 5) (1, 0, 0), P_output (1 / 2, 0), P_compute 0 0 (1 / 2)]
     (refresh (example_sim False True False False)
        (example_block (example_sim False True False False) (0, 0, 0) (2, 1, 1) (8, 8, 8))) \<and>
   sends_precede_reduction False
     (new_calls (run (example_sim False True False False)
        [X_refresh 8 (Some 5) (1, 0, 0), P_output (1 / 2, 0), P_compute 0 0 (1 / 2)])
        (example_block (example_sim False True False False) (0, 0, 0) (2, 1, 1) (8, 8, 8))) \<and>
   compute_after_quorum 0 0
     (new_calls (run (example_sim False True False False)
        [X_refresh 8 (Some 5) (1, 0, 0), P_output (1 / 2, 0), P_compute 0 0 (1 / 2)])
        (example_block (example_sim False True False False) (0, 0, 0) (2, 1, 1) (8, 8, 8)))"
proof -
  let ?S = "example_sim False True False False"
  let ?B = "example_block ?S (0, 0, 0) (2, 1, 1) (8, 8, 8)"
  let ?es = "[X_refresh 8 (Some 5) (1, 0, 0), P_output (1 / 2, 0), P_compute 0 0 (1 / 2)]"
  have e: "cb_out ?B = []" by (simp add: example_block_def CommBlock_new_def)
  have d: "driven ?S ?es (refresh ?S ?B)" by code_simp
  show ?thesis
    using ghost_messages_precede_prepare [of ?S ?es ?B, THEN conjunct1]
      ghost_messages_precede_prepare [of ?S ?es ?B, THEN conjunct2, THEN conjunct1] e d
    by simp
qed

text \<open>
  Claim C4 as it was stated has boundary enforcement, timestep evaluation and reduction
  before the ghost messages of the cycle, and the Methods after the ghost quorum. In the same
  run the calls are: the first ghost message; on the arrival that reaches the quorum the
  store, the boundary faces and the contribution; on the result of the reduction the
  report to the Simulation; on \<^verbatim>\<open>p_compute\<close> the Method, the raised counter and at once
  the ghost message of cycle 1, before any contribution of cycle 1.
\<close>

theorem prepare_precedes_ghost_messages_counterexample:
  "new_calls (run (example_sim False True False False)
      [X_refresh 8 (Some 5) (1, 0, 0), P_output (1 / 2, 0), P_compute 0 0 (1 / 2)])
      (example_block (example_sim False True False False) (0, 0, 0) (2, 1, 1) (8, 8, 8)) =
     [Send (1, 0, 0) 8 (Some 0) (- 1, 0, 0), Store 8 (Some 5) (1, 0, 0),
      Enforce face_lower axis_x, Enforce face_lower axis_y, Enforce face_upper axis_y,
      Enforce face_lower axis_z, Enforce face_upper axis_z, Contribute (1 / 2, 0),
      Update_state 0 0 (1 / 2) False, Simulation_p_output, Compute_block 0, Set_cycle 1,
      Send (1, 0, 0) 8 (Some 210) (- 1, 0, 0)] \<and>
   \<not> contribution_precedes_send True
     (new_calls (run (example_sim False True False False)
        [X_refresh 8 (Some 5) (1, 0, 0), P_output (1 / 2, 0), P_compute 0 0 (1 / 2)])
        (example_block (example_sim False True False False) (0, 0, 0) (2, 1, 1) (8, 8, 8)))"
proof -
  have t: "new_calls (run (example_sim False True False False)
      [X_refresh 8 (Some 5) (1, 0, 0), P_output (1 / 2, 0), P_compute 0 0 (1 / 2)])
      (example_block (example_sim False True False False) (0, 0, 0) (2, 1, 1) (8, 8, 8)) =
     [Send (1, 0, 0) 8 (Some 0) (- 1, 0, 0), Store 8 (Some 5) (1, 0, 0),
      Enforce face_lower axis_x, Enforce face_lower axis_y, Enforce face_upper axis_y,
      Enforce face_lower axis_z, Enforce face_upper axis_z, Contribute (1 / 2, 0),
      Update_state 0 0 (1 / 2) False, Simulation_p_output, Compute_block 0, Set_cycle 1,
      Send (1, 0, 0) 8 (Some 210) (- 1, 0, 0)]"
    by code_simp
  show ?thesis unfolding t by simp
qed

section \<open>Lock-step and the result of the reduction\<close>

lemma Min_insert_min:
  "finite S \<Longrightarrow> Min (insert (min a c) S) = Min (insert a (insert c S))"
  by (cases "S = {}") (simp_all add: min.assoc)

lemma fold_min_double:
  "fold (\<lambda>c r. (min (fst r) (fst c), min (snd r) (snd c))) cs r0 =
     (Min (insert (fst r0) (fst ` set cs)), Min (insert (snd r0) (snd ` set cs)))"
proof (induction cs arbitrary: r0)
  case Nil
  show ?case by simp
next
  case (Cons c cs)
  have "fold (\<lambda>c r. (min (fst r) (fst c), min (snd r) (snd c))) (c # cs) r0 =
      (Min (insert (min (fst r0) (fst c)) (fst ` set cs)),
       Min (insert (min (snd r0) (snd c)) (snd ` set cs)))"
    by (simp only: fold_simps Cons.IH fst_conv snd_conv)
  also have "\<dots> = (Min (insert (fst r0) (insert (fst c) (fst ` set cs))),
       Min (insert (snd r0) (insert (snd c) (snd ` set cs))))"
    by (simp only: Min_insert_min [OF finite_imageI [OF finite_set]])
  also have "\<dots> = (Min (insert (fst r0) (fst ` set (c # cs))),
       Min (insert (snd r0) (snd ` set (c # cs))))"
    by (simp only: list.set image_insert)
  finally show ?case .
qed

lemma min_double_Min:
  "cs \<noteq> [] \<Longrightarrow> min_double cs = Some (Min (fst ` set cs), Min (snd ` set cs))"
  by (cases cs) (simp_all add: fold_min_double)

lemma Min_flags:
  assumes "finite S" "S \<noteq> {}" "\<forall>x\<in>S. x = 0 \<or> x = (1::real)"
  shows "Min S = 1 \<longleftrightarrow> (\<forall>x\<in>S. x = 1)"
proof
  assume m: "Min S = 1"
  show "\<forall>x\<in>S. x = 1"
  proof
    fix x assume x: "x \<in> S"
    then have "1 \<le> x" using Min_le [OF assms(1) x] m by simp
    then show "x = 1" using assms(3) x by auto
  qed
next
  assume "\<forall>x\<in>S. x = 1"
  then show "Min S = 1" using Min_in [OF assms(1,2)] by blast
qed

lemma p_output_frame:
  "cb_dt (p_output r b) = fst r"
  "new_calls (p_output r) b =
     [Update_state (cb_cycle b) (cb_time b) (fst r) (stop_forest r), Simulation_p_output]"
  by (simp_all add: p_output_def new_calls_def Let_def)

lemma reduction_result:
  assumes "bs \<noteq> []"
  shows "\<exists>r. cycle_reduction sim bs = Some (map (\<lambda>b. p_output r (prepare sim b)) bs) \<and>
           fst r = Min ((\<lambda>b. dt_block sim (update_boundary sim b)) ` set bs) \<and>
           (stop_forest r \<longleftrightarrow> (\<forall>b\<in>set bs. stop_block sim (update_boundary sim b)))"
proof -
  let ?cs = "map (min_reduce sim \<circ> update_boundary sim) bs"
  let ?r = "(Min (fst ` set ?cs), Min (snd ` set ?cs))"
  have ne: "?cs \<noteq> []" using assms by simp
  have 1: "cycle_reduction sim bs = Some (map (\<lambda>b. p_output ?r (prepare sim b)) bs)"
    unfolding cycle_reduction_def Let_def map_map min_double_Min [OF ne] by simp
  have f: "fst ` set ?cs = (\<lambda>b. dt_block sim (update_boundary sim b)) ` set bs"
    by (simp add: image_image min_reduce_def)
  have 2: "fst ?r = Min ((\<lambda>b. dt_block sim (update_boundary sim b)) ` set bs)"
    by (simp only: fst_conv f)
  have "snd ?r = 1 \<longleftrightarrow> (\<forall>x\<in>snd ` set ?cs. x = 1)"
    unfolding snd_conv using assms by (intro Min_flags) (auto simp: min_reduce_def)
  also have "\<dots> \<longleftrightarrow> (\<forall>b\<in>set bs. stop_block sim (update_boundary sim b))"
    by (simp add: min_reduce_def)
  finally have 4: "stop_forest ?r \<longleftrightarrow> (\<forall>b\<in>set bs. stop_block sim (update_boundary sim b))"
    by (simp add: stop_forest_def)
  show ?thesis
    by (rule exI [of _ ?r]) (intro conjI 1 2 4)
qed

lemma clock_x_refresh: "clock (x_refresh sim n buffer f b) = clock b"
  by (simp add: clock_def x_refresh_eq prepare_frame arrived_def)

lemma clock_refresh: "clock (refresh sim b) = clock b"
  by (simp add: refresh_loop clock_x_refresh) (simp add: clock_def)

lemma clock_invoke: "clock (invoke sim e b) = tick e (clock b)"
proof (cases e)
  case (P_compute c t d)
  have "clock (invoke sim e b) = clock (computed sim b)"
    by (simp add: P_compute p_compute_def compute_eq clock_refresh)
  then show ?thesis by (simp add: P_compute clock_def computed_def)
next
  case (X_refresh n buffer f)
  then show ?thesis by (simp add: clock_x_refresh) (simp add: clock_def)
next
  case (P_output r)
  then show ?thesis by (simp add: clock_def p_output_def Let_def)
qed

lemma clock_fold: "clock (fold (invoke sim) es b) = fold tick es (clock b)"
  by (induction es arbitrary: b) (simp_all add: clock_invoke)

lemma tick_X_refresh: "is_X_refresh e \<Longrightarrow> tick e k = k"
  by (cases e; cases k) simp_all

lemma fold_tick_filter:
  "fold tick es k = fold tick (filter (\<lambda>e. \<not> is_X_refresh e) es) k"
  by (induction es arbitrary: k) (simp_all add: tick_X_refresh)

text \<open>
  Lock-step. The blocks of the array are constructed with the same cycle, time and timestep,
  and afterwards every block is handed the same results of the reduction and the same calls
  of \<^verbatim>\<open>p_compute\<close>, between ghost messages of its own. When two blocks have been through
  the same of these, their cycle counters, times and timesteps are the same.
\<close>

lemma blocks_in_lock_step:
  assumes "filter (\<lambda>e. \<not> is_X_refresh e) es1 = filter (\<lambda>e. \<not> is_X_refresh e) es2"
  shows "clock (run sim es1 (CommBlock_new sim ib1 nb n1 data1)) =
         clock (run sim es2 (CommBlock_new sim ib2 nb n2 data2))"
proof -
  have "clock (CommBlock_new sim ib nb' n data) = (0, 0, 0)" for ib nb' n data
    by (simp add: clock_def CommBlock_new_def)
  then have "clock (run sim es (CommBlock_new sim ib nb' n data)) =
      fold tick (filter (\<lambda>e. \<not> is_X_refresh e) es) (0, 0, 0)" for es ib nb' n data
    by (simp add: run_def clock_fold clock_refresh fold_tick_filter [symmetric])
  then show ?thesis by (simp add: assms)
qed

text \<open>
  Claim C1. The blocks of one reduction are in lock-step: they have the same cycle counter and
  the same time. When the blocks of the array (at least one) have all contributed, the
  reduction has a result, and \<^verbatim>\<open>p_output\<close> hands the same result to every block: the
  timestep is the minimum of the timesteps the blocks contributed, so it is at most each of
  them, and the stop flag is true iff the stop flag of at least one block was true. Each
  block contributes once, its \<^verbatim>\<open>dt_block\<close> and its flag as \<open>1\<close> or \<open>0\<close>; it takes the
  timestep of the result as its \<^verbatim>\<open>dt_\<close> and passes timestep and flag on to the
  Simulation.
\<close>

theorem reduction_result_delivered:
  assumes "bs \<noteq> []"
    and "\<forall>b\<in>set bs. cb_cycle b = cycle \<and> cb_time b = time"
  shows "\<exists>r. cycle_reduction sim bs = Some (map (\<lambda>b. p_output r (prepare sim b)) bs) \<and>
           fst r = Min ((\<lambda>b. dt_block sim (update_boundary sim b)) ` set bs) \<and>
           (\<forall>b\<in>set bs. fst r \<le> dt_block sim (update_boundary sim b)) \<and>
           (stop_forest r \<longleftrightarrow> (\<exists>b\<in>set bs. stop_block sim (update_boundary sim b))) \<and>
           (\<forall>b\<in>set bs.
              filter is_Contribute (new_calls (prepare sim) b) =
                [Contribute (dt_block sim (update_boundary sim b),
                   if stop_block sim (update_boundary sim b) then 1 else 0)] \<and>
              cb_dt (p_output r (prepare sim b)) = fst r \<and>
              new_calls (p_output r) (prepare sim b) =
                [Update_state (cb_cycle b) (cb_time b) (fst r) (stop_forest r),
                 Simulation_p_output])"
proof -
  obtain r where r:
    "cycle_reduction sim bs = Some (map (\<lambda>b. p_output r (prepare sim b)) bs)"
    "fst r = Min ((\<lambda>b. dt_block sim (update_boundary sim b)) ` set bs)"
    "stop_forest r \<longleftrightarrow> (\<forall>b\<in>set bs. stop_block sim (update_boundary sim b))"
    using reduction_result [OF assms(1), of sim] by blast
  have 3: "\<forall>b\<in>set bs. fst r \<le> dt_block sim (update_boundary sim b)"
    unfolding r(2) by (simp add: Min_le)
  have s: "stop_block sim (update_boundary sim b) = stopping_complete sim cycle time"
    if "b \<in> set bs" for b
    using assms(2) that by (simp add: stop_block_def update_boundary_frame)
  obtain b0 where b0: "b0 \<in> set bs" using assms(1) by (cases bs) auto
  have "(\<forall>b\<in>set bs. stop_block sim (update_boundary sim b)) \<longleftrightarrow>
      (\<exists>b\<in>set bs. stop_block sim (update_boundary sim b))"
    using s b0 by blast
  then have 4: "stop_forest r \<longleftrightarrow> (\<exists>b\<in>set bs. stop_block sim (update_boundary sim b))"
    using r(3) by simp
  have 5: "filter is_Contribute (new_calls (prepare sim) b) =
      [Contribute (dt_block sim (update_boundary sim b),
         if stop_block sim (update_boundary sim b) then 1 else 0)]" for b
    by (simp add: new_calls_prepare prepare_calls_def is_Contribute_enforces min_reduce_def)
  have 6: "cb_dt (p_output r (prepare sim b)) = fst r \<and>
      new_calls (p_output r) (prepare sim b) =
        [Update_state (cb_cycle b) (cb_time b) (fst r) (stop_forest r), Simulation_p_output]"
    for b
    by (simp only: p_output_frame prepare_frame)
  have 7: "\<forall>b\<in>set bs.
      filter is_Contribute (new_calls (prepare sim) b) =
        [Contribute (dt_block sim (update_boundary sim b),
           if stop_block sim (update_boundary sim b) then 1 else 0)] \<and>
      cb_dt (p_output r (prepare sim b)) = fst r \<and>
      new_calls (p_output r) (prepare sim b) =
        [Update_state (cb_cycle b) (cb_time b) (fst r) (stop_forest r), Simulation_p_output]"
    using 5 6 by blast
  show ?thesis
    by (rule exI [of _ r]) (intro conjI r(1) r(2) 3 4 7)
qed

lemma example_data_contribution:
  "cb_time b = 0 \<Longrightarrow>
   min_reduce (example_sim_data k) (update_boundary (example_sim_data k) b) =
     (1 / 2 ^ cb_block (update_boundary (example_sim_data k) b),
      if k \<le> cb_cycle b then 1 else 0)"
proof -
  assume t: "cb_time b = 0"
  have "(1::real) / 2 ^ n \<le> 1" for n :: nat by simp
  then have "\<not> 2 < (1::real) / 2 ^ n" "(1::real) / 2 ^ n < 10" for n :: nat
    by (smt (verit))+
  then show ?thesis
    by (simp add: min_reduce_def dt_block_def stop_block_def MIN2_def update_boundary_frame
        example_sim_data_def example_sim_def Let_def t double_round_ten)
qed

text \<open>
  The two blocks of a domain of \<open>2 \<times> 1 \<times> 1\<close> blocks as constructed, with the field data
  0 and 2: the boundary conditions of the example make the data 5 and 7, the blocks
  contribute the timesteps \<open>1 / 32\<close> and \<open>1 / 128\<close>, and both are handed \<open>1 / 128\<close>. When
  the run stops from cycle 0 on, both contribute a true flag and are handed a true flag;
  when it stops from cycle 3 on, a false one.
\<close>

theorem reduction_result_delivered_witness:
  "(\<exists>r. cycle_reduction (example_sim_data 0)
          [CommBlock_new (example_sim_data 0) (0, 0, 0) (2, 1, 1) (8, 8, 8) 0,
           CommBlock_new (example_sim_data 0) (1, 0, 0) (2, 1, 1) (8, 8, 8) 2] =
        Some
          [p_output r (prepare (example_sim_data 0)
             (CommBlock_new (example_sim_data 0) (0, 0, 0) (2, 1, 1) (8, 8, 8) 0)),
           p_output r (prepare (example_sim_data 0)
             (CommBlock_new (example_sim_data 0) (1, 0, 0) (2, 1, 1) (8, 8, 8) 2))] \<and>
      fst r = 1 / 128 \<and> stop_forest r) \<and>
   (\<exists>r. cycle_reduction (example_sim_data 3)
          [CommBlock_new (example_sim_data 3) (0, 0, 0) (2, 1, 1) (8, 8, 8) 0,
           CommBlock_new (example_sim_data 3) (1, 0, 0) (2, 1, 1) (8, 8, 8) 2] =
        Some
          [p_output r (prepare (example_sim_data 3)
             (CommBlock_new (example_sim_data 3) (0, 0, 0) (2, 1, 1) (8, 8, 8) 0)),
           p_output r (prepare (example_sim_data 3)
             (CommBlock_new (example_sim_data 3) (1, 0, 0) (2, 1, 1) (8, 8, 8) 2))] \<and>
      fst r = 1 / 128 \<and> \<not> stop_forest r)"
proof -
  have main: "\<exists>r. cycle_reduction (example_sim_data k)
          [CommBlock_new (example_sim_data k) (0, 0, 0) (2, 1, 1) (8, 8, 8) 0,
           CommBlock_new (example_sim_data k) (1, 0, 0) (2, 1, 1) (8, 8, 8) 2] =
        Some
          [p_output r (prepare (example_sim_data k)
             (CommBlock_new (example_sim_data k) (0, 0, 0) (2, 1, 1) (8, 8, 8) 0)),
           p_output r (prepare (example_sim_data k)
             (CommBlock_new (example_sim_data k) (1, 0, 0) (2, 1, 1) (8, 8, 8) 2))] \<and>
      fst r = 1 / 128 \<and> (stop_forest r \<longleftrightarrow> k \<le> 0)" for k
  proof -
    let ?S = "example_sim_data k"
    let ?B1 = "CommBlock_new ?S (0, 0, 0) (2, 1, 1) (8, 8, 8) 0"
    let ?B2 = "CommBlock_new ?S (1, 0, 0) (2, 1, 1) (8, 8, 8) 2"
    have t: "cb_time ?B1 = 0" "cb_time ?B2 = 0" "cb_cycle ?B1 = 0" "cb_cycle ?B2 = 0"
      by (simp_all add: CommBlock_new_def)
    have e: "filter (enforced ?B1) faces =
        [(face_lower, axis_x), (face_lower, axis_y), (face_upper, axis_y),
         (face_lower, axis_z), (face_upper, axis_z)]"
      "filter (enforced ?B2) faces =
        [(face_upper, axis_x), (face_lower, axis_y), (face_upper, axis_y),
         (face_lower, axis_z), (face_upper, axis_z)]"
      by (simp_all add: faces_def enforced_def is_on_boundary_def CommBlock_new_def)
    have u: "cb_block (update_boundary ?S ?B1) = 5" "cb_block (update_boundary ?S ?B2) = 7"
      unfolding update_boundary_eq e
      by (simp_all add: CommBlock_new_def example_sim_data_def example_sim_def)
    have c1: "min_reduce ?S (update_boundary ?S ?B1) = (1 / 32, if k \<le> 0 then 1 else 0)"
      unfolding example_data_contribution [OF t(1)] u t by simp
    have c2: "min_reduce ?S (update_boundary ?S ?B2) = (1 / 128, if k \<le> 0 then 1 else 0)"
      unfolding example_data_contribution [OF t(2)] u t by simp
    note c = c1 c2
    have d: "dt_block ?S (update_boundary ?S ?B1) = 1 / 32"
      "dt_block ?S (update_boundary ?S ?B2) = 1 / 128"
      "stop_block ?S (update_boundary ?S ?B1) \<longleftrightarrow> k \<le> 0"
      "stop_block ?S (update_boundary ?S ?B2) \<longleftrightarrow> k \<le> 0"
      using c by (simp_all add: min_reduce_def split: if_splits)
    have ne: "[?B1, ?B2] \<noteq> []" by simp
    have ls: "\<forall>b\<in>set [?B1, ?B2]. cb_cycle b = 0 \<and> cb_time b = 0"
      by (simp add: t)
    from reduction_result_delivered [OF ne ls, of ?S] obtain r where
      r: "cycle_reduction ?S [?B1, ?B2] = Some (map (\<lambda>b. p_output r (prepare ?S b)) [?B1, ?B2])"
        "fst r = Min ((\<lambda>b. dt_block ?S (update_boundary ?S b)) ` set [?B1, ?B2])"
        "stop_forest r \<longleftrightarrow> (\<exists>b\<in>set [?B1, ?B2]. stop_block ?S (update_boundary ?S b))"
      by blast
    have "fst r = 1 / 128" unfolding r(2) by (simp add: d)
    moreover have "stop_forest r \<longleftrightarrow> k \<le> 0" unfolding r(3) by (simp add: d)
    ultimately show ?thesis using r(1) by (intro exI [of _ r]) simp
  qed
  show ?thesis using main [of 0] main [of 3] by simp
qed

section \<open>The rounding of doubles\<close>

lemma pow2_pos: "0 < pow2 e"
  by (simp add: pow2_def)

lemma pow2_add1: "pow2 (e + 1) = 2 * pow2 e"
proof (cases "0 \<le> e")
  case True
  then have "nat (e + 1) = Suc (nat e)" by simp
  then show ?thesis using True by (simp add: pow2_def)
next
  case False
  then have "nat (- e) = Suc (nat (- (e + 1)))" by simp
  then show ?thesis using False by (simp add: pow2_def)
qed

lemma double_exponent_down:
  "x < pow2 (e + 1) \<Longrightarrow> - 1022 \<le> e \<Longrightarrow> nat (e + 1022) \<le> n \<Longrightarrow>
     (pow2 (double_exponent n e x) \<le> x \<or> double_exponent n e x = - 1022) \<and>
     x < pow2 (double_exponent n e x + 1) \<and>
     - 1022 \<le> double_exponent n e x \<and> double_exponent n e x \<le> e"
proof (induction n arbitrary: e)
  case 0
  then show ?case by simp
next
  case (Suc n)
  show ?case
  proof (cases "x < pow2 e \<and> - 1022 < e")
    case True
    have "x < pow2 (e - 1 + 1)" "- 1022 \<le> e - 1" "nat (e - 1 + 1022) \<le> n"
      using True Suc.prems by simp_all
    from Suc.IH [OF this] show ?thesis using True by simp
  next
    case False
    then show ?thesis using Suc.prems by auto
  qed
qed

lemma double_exponent_up:
  "pow2 e \<le> x \<Longrightarrow> e \<le> 1023 \<Longrightarrow> nat (1023 - e) \<le> n \<Longrightarrow>
     pow2 (double_exponent n e x) \<le> x \<and>
     (x < pow2 (double_exponent n e x + 1) \<or> double_exponent n e x = 1023) \<and>
     e \<le> double_exponent n e x \<and> double_exponent n e x \<le> 1023"
proof (induction n arbitrary: e)
  case 0
  then show ?case by simp
next
  case (Suc n)
  show ?case
  proof (cases "pow2 (e + 1) \<le> x \<and> e < 1023")
    case True
    have "pow2 (e + 1) \<le> x" "e + 1 \<le> 1023" "nat (1023 - (e + 1)) \<le> n"
      using True Suc.prems by simp_all
    from Suc.IH [OF this] show ?thesis using True Suc.prems(1) by simp
  next
    case False
    then show ?thesis using Suc.prems by auto
  qed
qed

text \<open>
  The search finds the binary exponent: the number lies between the power of two of the
  exponent found and the next, unless it is below the smallest or above the largest.
\<close>

lemma double_exponent_found:
  "- 1022 \<le> double_exponent 1023 0 x \<and> double_exponent 1023 0 x \<le> 1023 \<and>
   (pow2 (double_exponent 1023 0 x) \<le> x \<or> double_exponent 1023 0 x = - 1022) \<and>
   (x < pow2 (double_exponent 1023 0 x + 1) \<or> double_exponent 1023 0 x = 1023)"
proof (cases "x < pow2 0")
  case True
  then have "x < pow2 (0 + 1)" by (simp add: pow2_def)
  from double_exponent_down [OF this, of 1023] show ?thesis by auto
next
  case False
  then have "pow2 0 \<le> x" by simp
  from double_exponent_up [OF this, of 1023] show ?thesis by auto
qed

lemma round_even_error: "\<bar>of_int (round_even m) - m\<bar> \<le> 1 / 2"
proof -
  have "of_int \<lfloor>m\<rfloor> \<le> m" "m < of_int \<lfloor>m\<rfloor> + 1" by linarith+
  then show ?thesis by (auto simp: round_even_def Let_def)
qed

text \<open>
  Rounding moves a number by at most half the spacing of the doubles at its exponent, and to
  a multiple of that spacing.
\<close>

lemma double_round_error:
  "\<bar>double_round x - x\<bar> \<le> pow2 (double_exponent 1023 0 \<bar>x\<bar> - 52) / 2"
proof (cases "x = 0")
  case True
  then show ?thesis using pow2_pos [of "double_exponent 1023 0 \<bar>x\<bar> - 52"]
    by (simp add: double_round_def)
next
  case False
  let ?u = "pow2 (double_exponent 1023 0 \<bar>x\<bar> - 52)"
  have u: "0 < ?u" by (rule pow2_pos)
  have "double_round x - x = (of_int (round_even (x / ?u)) - x / ?u) * ?u"
    using False u by (simp add: double_round_def Let_def left_diff_distrib)
  then have "\<bar>double_round x - x\<bar> = \<bar>of_int (round_even (x / ?u)) - x / ?u\<bar> * ?u"
    using u by (simp add: abs_mult)
  also have "\<dots> \<le> 1 / 2 * ?u"
    using round_even_error [of "x / ?u"] u by (intro mult_right_mono) simp_all
  finally show ?thesis by simp
qed

section \<open>The contributed timestep and the stop time\<close>

text \<open>
  Claim C9, where the code departs from it. \<^verbatim>\<open>prepare\<close> takes the smaller of the
  timestep and the stop time minus the current time, ``to not overshoot final time'' as its
  comment says; but the difference is rounded, and so is the sum of time and timestep in
  \<^verbatim>\<open>compute\<close>. The one block of a domain, in a run that stops at 0.9 and begins with the
  timestep 0.3, is handed its own contributions as the results of the reduction. At cycle 1
  and time 0.3 the difference \<open>0.9 - 0.3\<close> lies midway between two doubles and goes to the
  upper one: the block contributes 0.6000000000000001, more than is left to the stop time,
  and \<^verbatim>\<open>compute\<close> moves the time to 0.9000000000000001, past the stop time. The calls
  are shown without those of the boundary conditions.
\<close>

theorem prepare_overshoots_stop_time:
  "stopping_stop_time overshoot_sim = 8106479329266893 / 2 ^ 53 \<and>
   filter (\<lambda>e. \<not> is_Enforce e)
     (new_calls (run overshoot_sim
        [P_output (5404319552844595 / 2 ^ 54, 0),
         P_compute 0 0 (5404319552844595 / 2 ^ 54),
         P_output (5404319552844596 / 2 ^ 53, 0),
         P_compute 1 (5404319552844595 / 2 ^ 54) (5404319552844596 / 2 ^ 53)])
        (CommBlock_new overshoot_sim (0, 0, 0) (1, 1, 1) (8, 8, 8) 0)) =
     [Contribute (5404319552844595 / 2 ^ 54, 0),
      Update_state 0 0 (5404319552844595 / 2 ^ 54) False, Simulation_p_output,
      Compute_block 0, Set_cycle 1,
      Contribute (5404319552844596 / 2 ^ 53, 0),
      Update_state 1 (5404319552844595 / 2 ^ 54) (5404319552844596 / 2 ^ 53) False,
      Simulation_p_output,
      Compute_block 0, Set_cycle 2,
      Contribute (- 1 / 2 ^ 53, 1)] \<and>
   cb_time (run overshoot_sim
        [P_output (5404319552844595 / 2 ^ 54, 0),
         P_compute 0 0 (5404319552844595 / 2 ^ 54),
         P_output (5404319552844596 / 2 ^ 53, 0),
         P_compute 1 (5404319552844595 / 2 ^ 54) (5404319552844596 / 2 ^ 53)]
        (CommBlock_new overshoot_sim (0, 0, 0) (1, 1, 1) (8, 8, 8) 0)) =
     8106479329266894 / 2 ^ 53 \<and>
   stopping_stop_time overshoot_sim <
     cb_time (run overshoot_sim
        [P_output (5404319552844595 / 2 ^ 54, 0),
         P_compute 0 0 (5404319552844595 / 2 ^ 54),
         P_output (5404319552844596 / 2 ^ 53, 0),
         P_compute 1 (5404319552844595 / 2 ^ 54) (5404319552844596 / 2 ^ 53)]
        (CommBlock_new overshoot_sim (0, 0, 0) (1, 1, 1) (8, 8, 8) 0))"
  by code_simp

text \<open>
  What the clamp of \<^verbatim>\<open>prepare\<close> does ensure: the contributed timestep is at most the
  rounded difference of stop time and current time, so that it exceeds what is left to the
  stop time by at most half the spacing of the doubles at the exponent of that difference.
\<close>

theorem candidate_overshoot_bounded:
  "dt_block sim b \<le> double_round (stopping_stop_time sim - cb_time b) \<and>
   cb_time b + dt_block sim b \<le>
     stopping_stop_time sim +
     pow2 (double_exponent 1023 0 \<bar>stopping_stop_time sim - cb_time b\<bar> - 52) / 2"
proof -
  have 1: "dt_block sim b \<le> double_round (stopping_stop_time sim - cb_time b)"
    by (simp add: dt_block_def MIN2_def Let_def)
  show ?thesis
    using 1 double_round_error [of "stopping_stop_time sim - cb_time b"] by linarith
qed

section \<open>The range of the index arithmetic\<close>

text \<open>
  With at most \<open>2 ^ 30\<close> blocks along every axis, the sums from which \<^verbatim>\<open>refresh\<close> takes
  the indices of the neighbors of a block of the domain stay within 32 bits, and the
  remainders are taken of numbers that are not negative.
\<close>

lemma refresh_index_arithmetic_in_range:
  assumes "valid_index b" and "along a (cb_size b) \<le> 2 ^ 30"
  shows "- (2 ^ 31) \<le> along a (cb_index b) - 1 \<and>
         0 \<le> along a (cb_index b) - 1 + along a (cb_size b) \<and>
         along a (cb_index b) - 1 + along a (cb_size b) < 2 ^ 31 \<and>
         0 \<le> along a (cb_index b) + 1 \<and>
         along a (cb_index b) + 1 < 2 ^ 31"
  using valid_index_axis [OF assms(1), of a] assms(2) by simp

section \<open>Further properties of the quorum\<close>

lemma count_refresh_corner_interior:
  assumes "\<not> boundary_is_periodic sim"
    and "field_size c = field_size i"
    and "every_axis (\<lambda>a. 1 < along a (field_size i))"
    and "every_axis (\<lambda>a. is_on_boundary c a face_lower \<or> is_on_boundary c a face_upper)"
    and "every_axis (\<lambda>a. \<not> is_on_boundary i a face_lower \<and> \<not> is_on_boundary i a face_upper)"
    and "field_refresh_face sim 2 \<or> field_refresh_face sim 1 \<or> field_refresh_face sim 0"
  shows "count_refresh sim c < count_refresh sim i"
proof -
  have i: "face_open sim i a s" for a s
    using assms(1,3,5) by (cases a; cases s) (simp_all add: face_open_def every_axis_def)
  have c: "\<not> face_open sim c a face_lower \<or> \<not> face_open sim c a face_upper" for a
    using assms(1,4) by (cases a) (auto simp: face_open_def every_axis_def)
  have "count_refresh sim i =
      1 + (if field_refresh_face sim 2 then 6 else 0) + (if field_refresh_face sim 1 then 12 else 0)
        + (if field_refresh_face sim 0 then 8 else 0)"
    by (simp add: count_refresh_flags i)
  moreover have "count_refresh sim c \<le>
      1 + (if field_refresh_face sim 2 then 3 else 0) + (if field_refresh_face sim 1 then 3 else 0)
        + (if field_refresh_face sim 0 then 1 else 0)"
    using c [of axis_x] c [of axis_y] c [of axis_z]
    by (auto simp: count_refresh_flags Let_def)
  ultimately show ?thesis using assms(6) by (auto split: if_splits)
qed

text \<open>
  Boundary reduction (section 8 of the specification). In a domain that is not periodic, with
  some refresh class enabled, a block on the domain boundary along all three axes has fewer
  active directions than a block of the same cells that is on no boundary; so has its quorum.
\<close>

theorem corner_block_fewer_active_directions:
  assumes "\<not> boundary_is_periodic sim"
    and "field_size c = field_size i"
    and "every_axis (\<lambda>a. 1 < along a (field_size i))"
    and "every_axis (\<lambda>a. is_on_boundary c a face_lower \<or> is_on_boundary c a face_upper)"
    and "every_axis (\<lambda>a. \<not> is_on_boundary i a face_lower \<and> \<not> is_on_boundary i a face_upper)"
    and "field_refresh_face sim 2 \<or> field_refresh_face sim 1 \<or> field_refresh_face sim 0"
  shows "length (filter (spec_active sim c) directions) <
           length (filter (spec_active sim i) directions) \<and>
         count_refresh sim c < count_refresh sim i"
  using count_refresh_corner_interior [OF assms]
  by (simp add: count_refresh_active)

text \<open>The corner block \<open>(0, 0, 2)\<close> and the middle block of \<open>3 \<times> 3 \<times> 3\<close> blocks, faces only.\<close>

theorem corner_block_fewer_active_directions_witness:
  "count_refresh (example_sim False True False False)
     (example_block (example_sim False True False False) (0, 0, 2) (3, 3, 3) (8, 8, 8)) <
   count_refresh (example_sim False True False False)
     (example_block (example_sim False True False False) (1, 1, 1) (3, 3, 3) (8, 8, 8))"
  using corner_block_fewer_active_directions [of "example_sim False True False False"
      "example_block (example_sim False True False False) (0, 0, 2) (3, 3, 3) (8, 8, 8)"
      "example_block (example_sim False True False False) (1, 1, 1) (3, 3, 3) (8, 8, 8)"]
  by (simp add: example_sim_def example_block_def CommBlock_new_def every_axis_def
      is_on_boundary_def)

text \<open>
  A block of the domain sends one ghost message less than its quorum: what it sends are the
  messages of its active directions, what it awaits is one more.
\<close>

theorem refresh_sends_quorum_less_one:
  assumes "valid_index b"
  shows "int (length (filter is_Send (new_calls (refresh sim) b))) = count_refresh sim b - 1"
  by (simp add: refresh_new_sends [OF assms] count_refresh_active)

text \<open>
  The scenario of section 8: every block of a periodic domain of \<open>2 \<times> 2 \<times> 2\<close> blocks with
  8 cells along every axis and faces refreshed only has the quorum 7 and sends 6 messages.
\<close>

theorem refresh_sends_quorum_less_one_witness:
  "count_refresh (example_sim True True False False)
     (example_block (example_sim True True False False) (1, 0, 1) (2, 2, 2) (8, 8, 8)) = 7 \<and>
   length (filter is_Send (new_calls (refresh (example_sim True True False False))
     (example_block (example_sim True True False False) (1, 0, 1) (2, 2, 2) (8, 8, 8)))) = 6"
proof -
  let ?S = "example_sim True True False False"
  let ?B = "example_block ?S (1, 0, 1) (2, 2, 2) (8, 8, 8)"
  have v: "valid_index ?B"
    by (simp add: valid_index_def every_axis_def example_block_def CommBlock_new_def)
  have c: "count_refresh ?S ?B = 7"
    by (simp add: example_sim_def example_block_def CommBlock_new_def count_refresh_def incr_def)
  show ?thesis using refresh_sends_quorum_less_one [OF v, of ?S] c by simp
qed

end
